theory Spec2Isabelle
  imports Main "HOL-Library.Word" "HOL-Library.AList"
begin

section \<open>Threads::RefCountedArray: fixed-size arrays with copy-on-write sharing\<close>

text \<open>
  The embedding follows \<^verbatim>\<open>src/Threads/RefCountedArray.h\<close>. A \<^verbatim>\<open>Header*\<close> is an
  address, the null pointer is address 0, and the free store is an explicit map from
  addresses to header blocks. Every member function takes the store (and the object it
  is called on) and returns the store (and the object) it leaves behind. Dereferencing
  a null or dangling pointer and indexing out of range are undefined behaviour in C++;
  the model returns the error \<open>Undefined\<close> there. A failed allocation throws; the
  model returns \<open>BadAlloc\<close> together with the state in which the exception leaves
  the program.
\<close>

subsection \<open>The atomic counter\<close>

type_synonym uint = "32 word"

text \<open>
  Modelled from the spec: \<^verbatim>\<open>Threads/Atomic.h\<close> is not part of the sources at hand.
  The spec asks of the atomic integer an increment and a decrement by one that reports
  whether the value after the decrement is zero; the header calls them \<^verbatim>\<open>preAdd\<close> and
  \<^verbatim>\<open>preSub\<close> and compares the value \<^verbatim>\<open>preSub\<close> returns with 0. Each is one
  indivisible step that yields the new counter and, as its return value, the value
  after the operation. The counter is an \<^verbatim>\<open>unsigned int\<close>: 32 bits, wrapping.
\<close>

definition preAdd :: "uint \<Rightarrow> uint \<Rightarrow> uint \<times> uint" where
  "preAdd c n = (c + n, c + n)"

definition preSub :: "uint \<Rightarrow> uint \<Rightarrow> uint \<times> uint" where
  "preSub c n = (c - n, c - n)"

subsection \<open>The header stored before the array\<close>

record 'e Header =
  refCount :: uint
  size_f :: nat
  elements :: "'e list"

text \<open>\<^verbatim>\<open>Header(size_t sSize) : refCount(1), size(sSize)\<close>; the element storage that
  follows the header is filled in by whoever allocated the block.\<close>

definition Header_ctor :: "nat \<Rightarrow> 'e Header" where
  "Header_ctor sSize = \<lparr>refCount = 1, size_f = sSize, elements = []\<rparr>"

definition ref :: "'e Header \<Rightarrow> 'e Header" where
  "ref h = h\<lparr>refCount := fst (preAdd (refCount h) 1)\<rparr>"

definition unref :: "'e Header \<Rightarrow> 'e Header \<times> bool" where
  "unref h = (case preSub (refCount h) 1 of (c, v) \<Rightarrow> (h\<lparr>refCount := c\<rparr>, v = 0))"

subsection \<open>Concurrent calls on one counter\<close>

text \<open>
  Modelled from the spec: \<^verbatim>\<open>Threads/Atomic.h\<close> is not part of the sources at hand. By the
  spec each operation of the atomic integer is indivisible, so an execution of several
  threads on one counter is a sequence of such accesses, each by one thread. An access
  takes the counter and yields the new counter and the value it hands to its thread,
  which the thread keeps in a register of its own. \<open>PreAdd\<close> and \<open>PreSub\<close> are the two
  operations the header calls. \<open>Load\<close> (read the counter) and \<open>StoreDec\<close> (write back
  the value read, less one) are not called anywhere in the header; they are here only
  to write down the sequence the specification forbids.
\<close>

type_synonym tid = nat

datatype action = PreAdd uint | PreSub uint | Load | StoreDec

fun access :: "action \<Rightarrow> uint \<Rightarrow> uint \<Rightarrow> uint \<times> uint" where
  "access (PreAdd n) c r = preAdd c n"
| "access (PreSub n) c r = preSub c n"
| "access Load c r = (c, c)"
| "access StoreDec c r = (r - 1, r - 1)"

fun exec :: "(tid \<times> action) list \<Rightarrow> uint \<Rightarrow> (tid \<Rightarrow> uint) \<Rightarrow> uint \<times> (tid \<Rightarrow> uint)" where
  "exec [] c R = (c, R)"
| "exec (e # tr) c R =
     (case access (snd e) c (R (fst e)) of (c', v) \<Rightarrow> exec tr c' (R(fst e := v)))"

text \<open>\<^verbatim>\<open>return refCount.preSub(1)==0;\<close> touches the counter once, and answers by
  comparing the value that one access returned with 0.\<close>

definition unref_accesses :: "action list" where
  "unref_accesses = [PreSub 1]"

definition unref_answer :: "uint \<Rightarrow> bool" where
  "unref_answer v = (v = 0)"

text \<open>The sequence the specification forbids, in its words a separate load, then
  decrement, then compare.\<close>

definition unref_separate_accesses :: "action list" where
  "unref_separate_accesses = [Load, StoreDec]"

text \<open>\<open>calls t tr\<close> are the accesses of thread \<open>t\<close> in the execution \<open>tr\<close>, in order;
  \<open>tr\<close> interleaves the threads \<open>ts\<close>, each running \<open>prog\<close>, when every thread of
  \<open>ts\<close> makes exactly the accesses of \<open>prog\<close> in it and no one else makes any.\<close>

definition calls :: "tid \<Rightarrow> (tid \<times> action) list \<Rightarrow> action list" where
  "calls t tr = map snd (filter (\<lambda>e. fst e = t) tr)"

definition interleaves :: "action list \<Rightarrow> tid list \<Rightarrow> (tid \<times> action) list \<Rightarrow> bool" where
  "interleaves prog ts tr =
     ((\<forall>t \<in> set ts. calls t tr = prog) \<and> (\<forall>e \<in> set tr. fst e \<in> set ts))"

subsection \<open>The free store\<close>

type_synonym addr = nat

text \<open>The log records, in program order, every call that touches a block's life:
  allocation, \<^verbatim>\<open>ref()\<close> and \<^verbatim>\<open>unref()\<close> with the counter value they leave, and
  destruction.\<close>

datatype event = Create addr | Ref addr uint | Unref addr uint | Destroy addr

record 'e memory =
  blocks :: "addr \<rightharpoonup> 'e Header"
  nextAddr :: addr
  capacity :: nat
  events :: "event list"

datatype 's error = BadAlloc 's | Undefined

definition init_memory :: "nat \<Rightarrow> 'e memory" where
  "init_memory cap = \<lparr>blocks = Map.empty, nextAddr = 1, capacity = cap, events = []\<rparr>"

definition deref :: "'e memory \<Rightarrow> addr \<Rightarrow> 'e Header option" where
  "deref m p = (if p = 0 then None else blocks m p)"

text \<open>\<^verbatim>\<open>header->ref()\<close> and \<^verbatim>\<open>header->unref()\<close> through a pointer.\<close>

definition header_ref :: "'e memory \<Rightarrow> addr \<Rightarrow> 'e memory error + 'e memory" where
  "header_ref m p =
     (case deref m p of
        None \<Rightarrow> Inl Undefined
      | Some h \<Rightarrow>
          Inr (m\<lparr>blocks := (blocks m)(p \<mapsto> ref h),
                 events := events m @ [Ref p (refCount (ref h))]\<rparr>))"

definition header_unref :: "'e memory \<Rightarrow> addr \<Rightarrow> 'e memory error + ('e memory \<times> bool)" where
  "header_unref m p =
     (case deref m p of
        None \<Rightarrow> Inl Undefined
      | Some h \<Rightarrow>
          (case unref h of
             (h', orphaned) \<Rightarrow>
               Inr (m\<lparr>blocks := (blocks m)(p \<mapsto> h'),
                      events := events m @ [Unref p (refCount h')]\<rparr>, orphaned)))"

text \<open>
  Modelled from the spec: \<^verbatim>\<open>create\<close> and \<^verbatim>\<open>destroy\<close> are declared in the header and
  defined in \<^verbatim>\<open>RefCountedArray.icpp\<close>, which is not part of the sources at hand. By the
  spec, allocation reserves one region for the fixed fields and \<open>newSize\<close> elements,
  default-constructs each element (\<open>d\<close> is the default-constructed element) and sets
  the reference count to 1; it is all-or-nothing, so a failure leaves the store as it
  was. Destruction destructs the elements and releases the allocation. The store has
  room for \<open>capacity\<close> more units, a block taking one unit for its header and one for
  each element; a fresh address is never one handed out before, so that an address
  names one block for all time.
\<close>

definition create :: "'e \<Rightarrow> 'e memory \<Rightarrow> nat \<Rightarrow> 'e memory error + ('e memory \<times> addr)" where
  "create d m newSize =
     (if capacity m < Suc newSize then Inl (BadAlloc m)
      else
        Inr (m\<lparr>blocks := (blocks m)(nextAddr m \<mapsto>
                    (Header_ctor newSize)\<lparr>elements := replicate newSize d\<rparr>),
               nextAddr := Suc (nextAddr m),
               capacity := capacity m - Suc newSize,
               events := events m @ [Create (nextAddr m)]\<rparr>, nextAddr m))"

definition destroy :: "'e memory \<Rightarrow> addr \<Rightarrow> 'e memory error + 'e memory" where
  "destroy m p =
     (case deref m p of
        None \<Rightarrow> Inl Undefined
      | Some h \<Rightarrow>
          Inr (m\<lparr>blocks := (blocks m)(p := None),
                 capacity := capacity m + Suc (size_f h),
                 events := events m @ [Destroy p]\<rparr>))"

subsection \<open>The handle\<close>

record RefCountedArray =
  header :: addr

text \<open>\<^verbatim>\<open>RefCountedArray(void) : header(0)\<close>\<close>

definition RefCountedArray_void :: RefCountedArray where
  "RefCountedArray_void = \<lparr>header = 0\<rparr>"

text \<open>\<^verbatim>\<open>RefCountedArray(size_t sSize) : header(create(sSize))\<close>\<close>

definition RefCountedArray_sized ::
  "'e \<Rightarrow> 'e memory \<Rightarrow> nat \<Rightarrow> 'e memory error + ('e memory \<times> RefCountedArray)" where
  "RefCountedArray_sized d m sSize =
     (case create d m sSize of
        Inl e \<Rightarrow> Inl e
      | Inr (m', p) \<Rightarrow> Inr (m', \<lparr>header = p\<rparr>))"

text \<open>\<^verbatim>\<open>RefCountedArray(const RefCountedArray& source) : header(source.header)\<close>,
  then \<^verbatim>\<open>if(header!=0) header->ref();\<close>\<close>

definition RefCountedArray_copy ::
  "'e memory \<Rightarrow> RefCountedArray \<Rightarrow> 'e memory error + ('e memory \<times> RefCountedArray)" where
  "RefCountedArray_copy m source =
     (let this = \<lparr>header = header source\<rparr> in
      if header this \<noteq> 0 then
        (case header_ref m (header this) of
           Inl e \<Rightarrow> Inl e
         | Inr m' \<Rightarrow> Inr (m', this))
      else Inr (m, this))"

text \<open>
  \<^verbatim>\<open>operator=\<close>. The source object is read twice, in the comparison and in the
  adoption after the release. When \<open>source\<close> is the very object assigned to, the two
  headers are equal and nothing is done; when it is another object, the release in
  between does not write to it. So the function of the two header values below covers
  both.
\<close>

definition operator_assign ::
  "'e memory \<Rightarrow> RefCountedArray \<Rightarrow> RefCountedArray \<Rightarrow>
     'e memory error + ('e memory \<times> RefCountedArray)" where
  "operator_assign m this source =
     (if header this \<noteq> header source then
        (case (if header this \<noteq> 0 then
                 (case header_unref m (header this) of
                    Inl e \<Rightarrow> Inl e
                  | Inr (m1, orphaned) \<Rightarrow>
                      if orphaned then destroy m1 (header this) else Inr m1)
               else Inr m) of
           Inl e \<Rightarrow> Inl e
         | Inr m2 \<Rightarrow>
             (let this' = this\<lparr>header := header source\<rparr> in
              if header this' \<noteq> 0 then
                (case header_ref m2 (header this') of
                   Inl e \<Rightarrow> Inl e
                 | Inr m3 \<Rightarrow> Inr (m3, this'))
              else Inr (m2, this')))
      else Inr (m, this))"

text \<open>\<^verbatim>\<open>~RefCountedArray\<close>: \<^verbatim>\<open>if(header!=0&&header->unref()) destroy(header);\<close>\<close>

definition destructor :: "'e memory \<Rightarrow> RefCountedArray \<Rightarrow> 'e memory error + 'e memory" where
  "destructor m this =
     (if header this \<noteq> 0 then
        (case header_unref m (header this) of
           Inl e \<Rightarrow> Inl e
         | Inr (m1, orphaned) \<Rightarrow>
             if orphaned then destroy m1 (header this) else Inr m1)
      else Inr m)"

definition isValid :: "RefCountedArray \<Rightarrow> bool" where
  "isValid this = (header this \<noteq> 0)"

definition getSize :: "'e memory \<Rightarrow> RefCountedArray \<Rightarrow> 'e memory error + nat" where
  "getSize m this =
     (case deref m (header this) of
        None \<Rightarrow> Inl Undefined
      | Some h \<Rightarrow> Inr (size_f h))"

text \<open>A pointer or reference to an element is the block's address and an offset into
  its array; \<open>store\<close> writes through it.\<close>

type_synonym eptr = "addr \<times> nat"

definition store :: "'e memory \<Rightarrow> eptr \<Rightarrow> 'e \<Rightarrow> 'e memory error + 'e memory" where
  "store m r v =
     (case deref m (fst r) of
        None \<Rightarrow> Inl Undefined
      | Some h \<Rightarrow>
          if snd r < length (elements h)
          then Inr (m\<lparr>blocks := (blocks m)(fst r \<mapsto> h\<lparr>elements := (elements h)[snd r := v]\<rparr>)\<rparr>)
          else Inl Undefined)"

text \<open>\<^verbatim>\<open>const Element* getArray(void) const\<close> and
  \<^verbatim>\<open>const Element& operator[](size_t index) const\<close>; the latter is modelled by the
  value read through the reference it returns.\<close>

definition getArray_const :: "'e memory \<Rightarrow> RefCountedArray \<Rightarrow> 'e memory error + eptr" where
  "getArray_const m this =
     (case deref m (header this) of
        None \<Rightarrow> Inl Undefined
      | Some h \<Rightarrow> Inr (header this, 0))"

definition index_const :: "'e memory \<Rightarrow> RefCountedArray \<Rightarrow> nat \<Rightarrow> 'e memory error + 'e" where
  "index_const m this i =
     (case deref m (header this) of
        None \<Rightarrow> Inl Undefined
      | Some h \<Rightarrow> if i < length (elements h) then Inr (elements h ! i) else Inl Undefined)"

text \<open>
  Modelled from the spec: \<^verbatim>\<open>modify\<close> is declared in the header and defined in
  \<^verbatim>\<open>RefCountedArray.icpp\<close>, which is not part of the sources at hand. By the spec: if
  the referenced block has reference count exactly 1, nothing happens; otherwise a new
  block of the same size is allocated, every element is copied into it, the handle
  adopts the new block (reference count 1), and the old block is released (its count
  decremented, the block destroyed if that was the last reference).
\<close>

definition modify ::
  "'e \<Rightarrow> 'e memory \<Rightarrow> RefCountedArray \<Rightarrow> 'e memory error + ('e memory \<times> RefCountedArray)" where
  "modify d m this =
     (case deref m (header this) of
        None \<Rightarrow> Inl Undefined
      | Some old \<Rightarrow>
          if refCount old = 1 then Inr (m, this)
          else
            (case create d m (size_f old) of
               Inl e \<Rightarrow> Inl e
             | Inr (m1, p) \<Rightarrow>
                 (case deref m1 p of
                    None \<Rightarrow> Inl Undefined
                  | Some new \<Rightarrow>
                      (let m2 = m1\<lparr>blocks := (blocks m1)(p \<mapsto> new\<lparr>elements := elements old\<rparr>)\<rparr>
                       in case header_unref m2 (header this) of
                            Inl e \<Rightarrow> Inl e
                          | Inr (m3, orphaned) \<Rightarrow>
                              (case (if orphaned then destroy m3 (header this) else Inr m3) of
                                 Inl e \<Rightarrow> Inl e
                               | Inr m4 \<Rightarrow> Inr (m4, this\<lparr>header := p\<rparr>))))))"

text \<open>\<^verbatim>\<open>set\<close>: \<^verbatim>\<open>modify(); header->elements[index]=newElement;\<close>\<close>

definition set_elem ::
  "'e \<Rightarrow> 'e memory \<Rightarrow> RefCountedArray \<Rightarrow> nat \<Rightarrow> 'e \<Rightarrow>
     'e memory error + ('e memory \<times> RefCountedArray)" where
  "set_elem d m this i newElement =
     (case modify d m this of
        Inl e \<Rightarrow> Inl e
      | Inr (m1, this1) \<Rightarrow>
          (case store m1 (header this1, i) newElement of
             Inl e \<Rightarrow> Inl e
           | Inr m2 \<Rightarrow> Inr (m2, this1)))"

text \<open>The non-const \<^verbatim>\<open>Element* getArray(void)\<close> and
  \<^verbatim>\<open>Element& operator[](size_t index)\<close>: each returns \<^verbatim>\<open>header->elements\<close>, or the
  indexed element of it, and does nothing else.\<close>

definition getArray ::
  "'e memory \<Rightarrow> RefCountedArray \<Rightarrow> 'e memory error + ('e memory \<times> RefCountedArray \<times> eptr)" where
  "getArray m this =
     (case deref m (header this) of
        None \<Rightarrow> Inl Undefined
      | Some h \<Rightarrow> Inr (m, this, (header this, 0)))"

definition index_op ::
  "'e memory \<Rightarrow> RefCountedArray \<Rightarrow> nat \<Rightarrow>
     'e memory error + ('e memory \<times> RefCountedArray \<times> eptr)" where
  "index_op m this i =
     (case deref m (header this) of
        None \<Rightarrow> Inl Undefined
      | Some h \<Rightarrow>
          if i < length (elements h) then Inr (m, this, (header this, i)) else Inl Undefined)"

subsection \<open>Well-formed stores\<close>

text \<open>The allocator never hands out the null address, and nothing lives at an address
  it has not handed out yet.\<close>

definition wf_memory :: "'e memory \<Rightarrow> bool" where
  "wf_memory m = (0 < nextAddr m \<and> (\<forall>p. nextAddr m \<le> p \<longrightarrow> blocks m p = None))"

subsection \<open>The mutating accessors as the specification words them\<close>

text \<open>
  The specification says of the non-const \<^verbatim>\<open>getArray()\<close> and \<^verbatim>\<open>operator[]\<close> that each
  first invokes \<^verbatim>\<open>modify()\<close> and then reads or writes through the block. These two
  definitions follow those words, for comparison with \<open>getArray\<close> and \<open>index_op\<close>
  above, which follow the header.
\<close>

definition getArray_spec ::
  "'e \<Rightarrow> 'e memory \<Rightarrow> RefCountedArray \<Rightarrow> 'e memory error + ('e memory \<times> RefCountedArray \<times> eptr)" where
  "getArray_spec d m this =
     (case modify d m this of
        Inl e \<Rightarrow> Inl e
      | Inr (m1, this1) \<Rightarrow> getArray m1 this1)"

definition index_op_spec ::
  "'e \<Rightarrow> 'e memory \<Rightarrow> RefCountedArray \<Rightarrow> nat \<Rightarrow>
     'e memory error + ('e memory \<times> RefCountedArray \<times> eptr)" where
  "index_op_spec d m this i =
     (case modify d m this of
        Inl e \<Rightarrow> Inl e
      | Inr (m1, this1) \<Rightarrow> index_op m1 this1 i)"

subsection \<open>Programs over handles\<close>

text \<open>
  The number of handles that reference a block is a property of a whole program, so a
  program state is the store together with the handle objects in scope, each under
  the name of its variable. An operation declares a handle with one of the three
  constructors, assigns one handle to another, lets a handle go out of scope, or calls
  \<^verbatim>\<open>modify\<close> or \<^verbatim>\<open>set\<close> on it. Declaring a name twice or using an undeclared name is
  not a program; the model answers \<open>Undefined\<close>. An exception thrown by a member
  function leaves the program in the state it carries.
\<close>

type_synonym hid = nat

record 'e system =
  mem :: "'e memory"
  handles :: "(hid \<times> RefCountedArray) list"

datatype 'e op =
    Default hid
  | Sized hid nat
  | CopyCon hid hid
  | Assign hid hid
  | Destruct hid
  | Modify hid
  | SetElem hid nat 'e

definition init_system :: "nat \<Rightarrow> 'e system" where
  "init_system cap = \<lparr>mem = init_memory cap, handles = []\<rparr>"

fun thrown :: "'e system \<Rightarrow> 'e memory error \<Rightarrow> 'e system error" where
  "thrown s (BadAlloc m) = BadAlloc (s\<lparr>mem := m\<rparr>)"
| "thrown s Undefined = Undefined"

fun step :: "'e \<Rightarrow> 'e system \<Rightarrow> 'e op \<Rightarrow> 'e system error + 'e system" where
  "step d s (Default h) =
     (if map_of (handles s) h \<noteq> None then Inl Undefined
      else Inr (s\<lparr>handles := (h, RefCountedArray_void) # handles s\<rparr>))"
| "step d s (Sized h n) =
     (if map_of (handles s) h \<noteq> None then Inl Undefined
      else
        (case RefCountedArray_sized d (mem s) n of
           Inl e \<Rightarrow> Inl (thrown s e)
         | Inr (m, this) \<Rightarrow> Inr \<lparr>mem = m, handles = (h, this) # handles s\<rparr>))"
| "step d s (CopyCon h src) =
     (if map_of (handles s) h \<noteq> None then Inl Undefined
      else
        (case map_of (handles s) src of
           None \<Rightarrow> Inl Undefined
         | Some source \<Rightarrow>
             (case RefCountedArray_copy (mem s) source of
                Inl e \<Rightarrow> Inl (thrown s e)
              | Inr (m, this) \<Rightarrow> Inr \<lparr>mem = m, handles = (h, this) # handles s\<rparr>)))"
| "step d s (Assign h src) =
     (case map_of (handles s) h of
        None \<Rightarrow> Inl Undefined
      | Some this \<Rightarrow>
          (case map_of (handles s) src of
             None \<Rightarrow> Inl Undefined
           | Some source \<Rightarrow>
               (case operator_assign (mem s) this source of
                  Inl e \<Rightarrow> Inl (thrown s e)
                | Inr (m, this') \<Rightarrow> Inr \<lparr>mem = m, handles = AList.update h this' (handles s)\<rparr>)))"
| "step d s (Destruct h) =
     (case map_of (handles s) h of
        None \<Rightarrow> Inl Undefined
      | Some this \<Rightarrow>
          (case destructor (mem s) this of
             Inl e \<Rightarrow> Inl (thrown s e)
           | Inr m \<Rightarrow> Inr \<lparr>mem = m, handles = AList.delete h (handles s)\<rparr>))"
| "step d s (Modify h) =
     (case map_of (handles s) h of
        None \<Rightarrow> Inl Undefined
      | Some this \<Rightarrow>
          (case modify d (mem s) this of
             Inl e \<Rightarrow> Inl (thrown s e)
           | Inr (m, this') \<Rightarrow> Inr \<lparr>mem = m, handles = AList.update h this' (handles s)\<rparr>))"
| "step d s (SetElem h i v) =
     (case map_of (handles s) h of
        None \<Rightarrow> Inl Undefined
      | Some this \<Rightarrow>
          (case set_elem d (mem s) this i v of
             Inl e \<Rightarrow> Inl (thrown s e)
           | Inr (m, this') \<Rightarrow> Inr \<lparr>mem = m, handles = AList.update h this' (handles s)\<rparr>))"

fun run :: "'e \<Rightarrow> 'e system \<Rightarrow> 'e op list \<Rightarrow> 'e system error + 'e system" where
  "run d s [] = Inr s"
| "run d s (x # xs) = (case step d s x of Inl e \<Rightarrow> Inl e | Inr s' \<Rightarrow> run d s' xs)"

text \<open>The largest number of handles in scope at any moment of a run.\<close>

fun handle_peak :: "'e \<Rightarrow> 'e system \<Rightarrow> 'e op list \<Rightarrow> nat" where
  "handle_peak d s [] = length (handles s)"
| "handle_peak d s (x # xs) =
     (case step d s x of
        Inl e \<Rightarrow> length (handles s)
      | Inr s' \<Rightarrow> max (length (handles s)) (handle_peak d s' xs))"

subsection \<open>Invariants of a program state\<close>

text \<open>\<open>refs_to p hs\<close> is the number of handles in \<open>hs\<close> whose header pointer is \<open>p\<close>.\<close>

definition refs_to :: "addr \<Rightarrow> (hid \<times> RefCountedArray) list \<Rightarrow> nat" where
  "refs_to p hs = length (filter (\<lambda>kv. header (snd kv) = p) hs)"

text \<open>
  A log is orderly when every \<open>Destroy p\<close> comes directly after an \<open>Unref p 0\<close>, that
  is, after the \<^verbatim>\<open>unref()\<close> of \<open>p\<close> that left the count at zero, and every
  \<^verbatim>\<open>unref()\<close> that left a count at zero is directly followed by the destruction of that
  block.
\<close>

fun orderly :: "event list \<Rightarrow> bool" where
  "orderly [] = True"
| "orderly (Unref p c # Destroy q # es) = (c = 0 \<and> q = p \<and> orderly es)"
| "orderly (Unref p c # es) = (c \<noteq> 0 \<and> orderly es)"
| "orderly (Destroy q # es) = False"
| "orderly (e # es) = orderly es"

text \<open>
  Every live block's count is the number of handles that reference it, is not zero, and
  the block holds as many elements as its size field says; handles have distinct names
  and reference live blocks or nothing; an address that was handed out and holds no
  block any more has been destroyed exactly once, any other address never.
\<close>

definition counts_ok :: "'e system \<Rightarrow> bool" where
  "counts_ok s =
     (\<forall>p b. blocks (mem s) p = Some b \<longrightarrow>
        unat (refCount b) = refs_to p (handles s) \<and> refCount b \<noteq> 0
        \<and> length (elements b) = size_f b)"

definition handles_ok :: "'e system \<Rightarrow> bool" where
  "handles_ok s =
     (distinct (map fst (handles s))
      \<and> (\<forall>kv \<in> set (handles s). header (snd kv) \<noteq> 0 \<longrightarrow> blocks (mem s) (header (snd kv)) \<noteq> None))"

definition destroyed :: "'e memory \<Rightarrow> addr \<Rightarrow> bool" where
  "destroyed m p = (0 < p \<and> p < nextAddr m \<and> blocks m p = None)"

definition log_ok :: "'e system \<Rightarrow> bool" where
  "log_ok s =
     (orderly (events (mem s))
      \<and> (\<forall>p. count_list (events (mem s)) (Destroy p) = (if destroyed (mem s) p then 1 else 0)))"

definition invariant :: "'e system \<Rightarrow> bool" where
  "invariant s = (wf_memory (mem s) \<and> blocks (mem s) 0 = None \<and> handles_ok s \<and> counts_ok s \<and> log_ok s)"

text \<open>Between two states: no address handed out in the first is reused, and a block
  still live in the second has the size it had in the first.\<close>

definition sizes_kept :: "'e system \<Rightarrow> 'e system \<Rightarrow> bool" where
  "sizes_kept s s' =
     (nextAddr (mem s) \<le> nextAddr (mem s')
      \<and> (\<forall>p b'. p < nextAddr (mem s) \<and> blocks (mem s') p = Some b' \<longrightarrow>
            (\<exists>b. blocks (mem s) p = Some b \<and> size_f b' = size_f b)))"

subsection \<open>Example programs and states\<close>

text \<open>\<open>copy_ops k\<close> declares handles \<open>1..k\<close>, each a copy of handle 0, and
  \<open>shared_by k d n cap\<close> is the state that \<open>Sized 0 n\<close> followed by \<open>copy_ops k\<close>
  reaches from the empty program with capacity \<open>cap\<close>.\<close>

definition copy_ops :: "nat \<Rightarrow> 'e op list" where
  "copy_ops k = map (\<lambda>j. CopyCon (Suc j) 0) [0..<k]"

definition shared_by :: "nat \<Rightarrow> 'e \<Rightarrow> nat \<Rightarrow> nat \<Rightarrow> 'e system" where
  "shared_by k d n cap =
     \<lparr>mem = \<lparr>blocks = [1 \<mapsto> \<lparr>refCount = of_nat (Suc k), size_f = n, elements = replicate n d\<rparr>],
              nextAddr = 2,
              capacity = cap - Suc n,
              events = Create 1 # map (\<lambda>j. Ref 1 (of_nat (j + 2))) [0..<k]\<rparr>,
      handles = rev (map (\<lambda>j. (j, \<lparr>header = 1\<rparr>)) [0..<Suc k])\<rparr>"

text \<open>The store after \<^verbatim>\<open>RefCountedArray<int> A(3); A.set(0,1); A.set(1,2); A.set(2,3);\<close>
  and the store after \<^verbatim>\<open>RefCountedArray<int> A(3), C(2);\<close>, both from capacity 10.\<close>

definition mem_123 :: "int memory" where
  "mem_123 =
     \<lparr>blocks = [1 \<mapsto> \<lparr>refCount = 1, size_f = 3, elements = [1, 2, 3]\<rparr>],
      nextAddr = 2, capacity = 6, events = [Create 1]\<rparr>"

definition two_blocks :: "int memory" where
  "two_blocks =
     \<lparr>blocks = [1 \<mapsto> \<lparr>refCount = 1, size_f = 3, elements = [0, 0, 0]\<rparr>,
                2 \<mapsto> \<lparr>refCount = 1, size_f = 2, elements = [0, 0]\<rparr>],
      nextAddr = 3, capacity = 3, events = [Create 1, Create 2]\<rparr>"

section \<open>Properties\<close>

subsection \<open>Words\<close>

lemma unat_pred_uint: "unat (c - 1 :: uint) = (unat c + 2 ^ 32 - 1) mod 2 ^ 32"
proof (cases "c = 0")
  case True
  then show ?thesis by (simp add: unsigned_minus_1_eq_mask mask_eq_exp_minus_1)
next
  case False
  have lt: "unat c < 2 ^ 32" using unsigned_less [of c] by simp
  have pos: "0 < unat c" using False by (simp add: unat_gt_0)
  have "unat c + 2 ^ 32 - 1 = (unat c - 1) + 2 ^ 32" using pos by simp
  then have "(unat c + 2 ^ 32 - 1) mod 2 ^ 32 = (unat c - 1) mod 2 ^ 32"
    by (simp only: mod_add_self2)
  also have "\<dots> = unat c - 1" using lt by simp
  finally show ?thesis using unat_minus_one [OF False] by simp
qed

lemma unat_succ_uint: "unat (c :: uint) < 2 ^ 32 - 1 \<Longrightarrow> unat (c + 1) = Suc (unat c) \<and> c + 1 \<noteq> 0"
proof -
  assume a: "unat c < 2 ^ 32 - 1"
  then have "unat c + unat (1 :: uint) < 2 ^ LENGTH(32)" by simp
  then have "unat (c + 1) = unat c + unat (1 :: uint)" by (simp only: unat_add_lem)
  then have u: "unat (c + 1) = Suc (unat c)" by simp
  then have "c + 1 \<noteq> 0" by (metis Zero_not_Suc unat_0)
  with u show ?thesis by simp
qed

lemma pred_uint_zero: "(c - 1 = 0) = (c = (1 :: uint))"
  by auto

subsection \<open>Executions of concurrent calls\<close>

lemma exec_unrefs:
  "distinct xs \<Longrightarrow>
   fst (exec (map (\<lambda>t. (t, PreSub 1)) xs) c R) = c - of_nat (length xs)
   \<and> (\<forall>j < length xs. snd (exec (map (\<lambda>t. (t, PreSub 1)) xs) c R) (xs ! j) = c - of_nat (Suc j))
   \<and> (\<forall>t. t \<notin> set xs \<longrightarrow> snd (exec (map (\<lambda>t. (t, PreSub 1)) xs) c R) t = R t)"
proof (induction xs arbitrary: c R)
  case Nil
  then show ?case by simp
next
  case (Cons x xs)
  let ?R = "R(x := c - 1)"
  let ?E = "exec (map (\<lambda>t. (t, PreSub 1)) xs) (c - 1) ?R"
  from Cons.prems have d: "distinct xs" and nx: "x \<notin> set xs" by simp_all
  note ih = Cons.IH [OF d, of "c - 1" ?R]
  have e: "exec (map (\<lambda>t. (t, PreSub 1)) (x # xs)) c R = ?E"
    by (simp add: preSub_def)
  note ih1 = ih [THEN conjunct1]
  note ih2 = ih [THEN conjunct2, THEN conjunct1, rule_format]
  note ih3 = ih [THEN conjunct2, THEN conjunct2, rule_format]
  have a: "fst ?E = c - of_nat (length (x # xs))"
    unfolding ih1 by simp
  have b: "snd ?E ((x # xs) ! j) = c - of_nat (Suc j)" if "j < length (x # xs)" for j
  proof (cases j)
    case 0
    have "snd ?E x = ?R x" using nx by (rule ih3)
    with 0 show ?thesis by simp
  next
    case (Suc k)
    with that have "k < length xs" by simp
    from ih2 [OF this] Suc show ?thesis by simp
  qed
  have f: "snd ?E t = R t" if "t \<notin> set (x # xs)" for t
  proof -
    from that have "t \<notin> set xs" "t \<noteq> x" by auto
    with ih3 [of t] show ?thesis by simp
  qed
  from a b f show ?case unfolding e by blast
qed

lemma filter_le1_distinct:
  "(\<And>t. length (filter (\<lambda>e. fst e = t) tr) \<le> 1) \<Longrightarrow> distinct (map fst tr)"
proof (induction tr)
  case Nil
  then show ?case by simp
next
  case (Cons e tr)
  have "length (filter (\<lambda>e. fst e = t) tr) \<le> 1" for t
    using Cons.prems [of t] by (simp split: if_splits)
  then have d: "distinct (map fst tr)" by (rule Cons.IH)
  have "fst e \<notin> fst ` set tr"
  proof
    assume "fst e \<in> fst ` set tr"
    then obtain e' where "e' \<in> set tr" "fst e' = fst e" by auto
    then have "filter (\<lambda>e'. fst e' = fst e) tr \<noteq> []" by (auto simp: filter_empty_conv)
    then have "0 < length (filter (\<lambda>e'. fst e' = fst e) tr)" by simp
    with Cons.prems [of "fst e"] show False by simp
  qed
  with d show ?case by simp
qed

lemma interleaves_unrefs:
  assumes "interleaves unref_accesses ts tr" and "distinct ts"
  shows "tr = map (\<lambda>t. (t, PreSub 1)) (map fst tr) \<and> distinct (map fst tr)
     \<and> set (map fst tr) = set ts \<and> length tr = length ts"
proof -
  from assms(1) have c: "\<And>t. t \<in> set ts \<Longrightarrow> calls t tr = [PreSub 1]"
    and m: "\<And>e. e \<in> set tr \<Longrightarrow> fst e \<in> set ts"
    by (simp_all add: interleaves_def unref_accesses_def)
  have s: "snd e = PreSub 1" if "e \<in> set tr" for e
  proof -
    from that have "snd e \<in> set (calls (fst e) tr)" by (auto simp: calls_def)
    with c [OF m [OF that]] show ?thesis by simp
  qed
  have shape: "tr = map (\<lambda>t. (t, PreSub 1)) (map fst tr)"
    using s by (induction tr) (auto simp: prod_eq_iff)
  have "length (filter (\<lambda>e. fst e = t) tr) \<le> 1" for t
  proof (cases "t \<in> set ts")
    case True
    from c [OF True] have "length (calls t tr) = 1" by simp
    then show ?thesis by (simp add: calls_def)
  next
    case False
    with m have "filter (\<lambda>e. fst e = t) tr = []" by (auto simp: filter_empty_conv)
    then show ?thesis by simp
  qed
  then have d: "distinct (map fst tr)" by (rule filter_le1_distinct)
  have "set (map fst tr) = set ts"
  proof
    show "set (map fst tr) \<subseteq> set ts" using m by auto
    show "set ts \<subseteq> set (map fst tr)"
    proof
      fix t assume "t \<in> set ts"
      from c [OF this] have "filter (\<lambda>e. fst e = t) tr \<noteq> []" by (auto simp: calls_def)
      then obtain e where "e \<in> set tr" "fst e = t" by (auto simp: filter_empty_conv)
      then show "t \<in> set (map fst tr)" by auto
    qed
  qed
  moreover from this d assms(2) have "length (map fst tr) = length ts"
    by (metis distinct_card)
  ultimately show ?thesis using shape d by simp
qed

lemma uint_eq_of_nat: "k < 2 ^ 32 \<Longrightarrow> ((c :: uint) = of_nat k) = (unat c = k)"
proof
  assume "k < 2 ^ 32" "c = of_nat k"
  then show "unat c = k" by (simp add: unat_of_nat)
next
  assume "unat c = k"
  then have "of_nat (unat c) = (of_nat k :: uint)" by simp
  then show "c = of_nat k" by simp
qed

lemma concurrent_unrefs:
  assumes d: "distinct ts" and n: "length ts < 2 ^ 32" and il: "interleaves unref_accesses ts tr"
  shows "fst (exec tr c R) = c - of_nat (length ts)
     \<and> (\<forall>j < length tr. unref_answer (snd (exec tr c R) (fst (tr ! j))) = (unat c = Suc j))
     \<and> length (filter (\<lambda>t. unref_answer (snd (exec tr c R) t)) ts)
         = (if 1 \<le> unat c \<and> unat c \<le> length ts then 1 else 0)"
proof -
  let ?xs = "map fst tr"
  let ?P = "\<lambda>t. unref_answer (snd (exec tr c R) t)"
  from interleaves_unrefs [OF il d]
  have shape: "tr = map (\<lambda>t. (t, PreSub 1)) ?xs" and dx: "distinct ?xs"
    and sx: "set ?xs = set ts" and lx: "length tr = length ts" by simp_all
  note ex = exec_unrefs [OF dx, of c R, folded shape]
  have a: "fst (exec tr c R) = c - of_nat (length ts)"
    using ex [THEN conjunct1] lx by simp
  have b: "?P (fst (tr ! j)) = (unat c = Suc j)" if "j < length tr" for j
  proof -
    from that have "snd (exec tr c R) (?xs ! j) = c - of_nat (Suc j)"
      using ex [THEN conjunct2, THEN conjunct1] by simp
    moreover have "?xs ! j = fst (tr ! j)" using that by simp
    moreover have "Suc j < 2 ^ 32" using that lx n by simp
    then have "(c = of_nat (Suc j)) = (unat c = Suc j)" by (rule uint_eq_of_nat)
    ultimately show ?thesis by (simp add: unref_answer_def)
  qed
  have "{t. ?P t} \<inter> set ts
      = (if 1 \<le> unat c \<and> unat c \<le> length ts then {?xs ! (unat c - 1)} else {})"
  proof (cases "1 \<le> unat c \<and> unat c \<le> length ts")
    case True
    then have k: "unat c - 1 < length tr" "Suc (unat c - 1) = unat c" using lx by auto
    have "t \<in> {t. ?P t} \<inter> set ts \<longleftrightarrow> t = ?xs ! (unat c - 1)" for t
    proof
      assume "t \<in> {t. ?P t} \<inter> set ts"
      then have p: "?P t" and "t \<in> set ?xs" using sx by simp_all
      then obtain j where j: "j < length tr" "t = fst (tr ! j)"
        by (auto simp: in_set_conv_nth)
      with b [OF j(1)] p have "unat c = Suc j" by simp
      with j show "t = ?xs ! (unat c - 1)" by simp
    next
      assume t: "t = ?xs ! (unat c - 1)"
      with k have "t = fst (tr ! (unat c - 1))" by simp
      with b [OF k(1)] k(2) have "?P t" by simp
      moreover from t k(1) have "t \<in> set ?xs" by (metis length_map nth_mem)
      ultimately show "t \<in> {t. ?P t} \<inter> set ts" using sx by simp
    qed
    with True show ?thesis by auto
  next
    case False
    have "\<not> ?P t" if "t \<in> set ts" for t
    proof
      assume p: "?P t"
      from that sx have "t \<in> set ?xs" by simp
      then obtain j where j: "j < length tr" "t = fst (tr ! j)"
        by (auto simp: in_set_conv_nth)
      with b [OF j(1)] p have "unat c = Suc j" by simp
      with j(1) lx False show False by simp
    qed
    with False show ?thesis by auto
  qed
  then have "card ({t. ?P t} \<inter> set ts)
      = (if 1 \<le> unat c \<and> unat c \<le> length ts then 1 else 0)" by simp
  then have cnt: "length (filter ?P ts)
      = (if 1 \<le> unat c \<and> unat c \<le> length ts then 1 else 0)"
    using d by (simp add: distinct_length_filter)
  from a b cnt show ?thesis by blast
qed

lemma unref_alone:
  "unref h = (h\<lparr>refCount := fst (exec (map (Pair t) unref_accesses) (refCount h) R)\<rparr>,
              unref_answer (snd (exec (map (Pair t) unref_accesses) (refCount h) R) t))"
  by (simp add: unref_def unref_accesses_def unref_answer_def preSub_def)

text \<open>With the separate load, decrement and compare in place of the one access, two
  threads can both be told the count reached zero (from count 1), or neither (from
  count 2, which is then left at 1).\<close>

lemma separate_accesses_race:
  "interleaves unref_separate_accesses [0, 1] [(0, Load), (1, Load), (0, StoreDec), (1, StoreDec)]
   \<and> fst (exec [(0, Load), (1, Load), (0, StoreDec), (1, StoreDec)] 1 (\<lambda>t. 0)) = 0
   \<and> unref_answer (snd (exec [(0, Load), (1, Load), (0, StoreDec), (1, StoreDec)] 1 (\<lambda>t. 0)) 0)
   \<and> unref_answer (snd (exec [(0, Load), (1, Load), (0, StoreDec), (1, StoreDec)] 1 (\<lambda>t. 0)) 1)
   \<and> fst (exec [(0, Load), (1, Load), (0, StoreDec), (1, StoreDec)] 2 (\<lambda>t. 0)) = 1
   \<and> \<not> unref_answer (snd (exec [(0, Load), (1, Load), (0, StoreDec), (1, StoreDec)] 2 (\<lambda>t. 0)) 0)
   \<and> \<not> unref_answer (snd (exec [(0, Load), (1, Load), (0, StoreDec), (1, StoreDec)] 2 (\<lambda>t. 0)) 1)"
  by (simp add: interleaves_def calls_def unref_separate_accesses_def unref_answer_def)

subsection \<open>What the member functions do to a live block\<close>

lemma wf_init_memory: "wf_memory (init_memory cap)"
  by (simp add: wf_memory_def init_memory_def)

lemma header_ref_live:
  "p \<noteq> 0 \<Longrightarrow> blocks m p = Some b \<Longrightarrow>
   header_ref m p = Inr (m\<lparr>blocks := (blocks m)(p \<mapsto> b\<lparr>refCount := refCount b + 1\<rparr>),
                            events := events m @ [Ref p (refCount b + 1)]\<rparr>)"
  by (simp add: header_ref_def deref_def ref_def preAdd_def)

lemma destructor_live:
  "header self \<noteq> 0 \<Longrightarrow> blocks m (header self) = Some b \<Longrightarrow>
   destructor m self =
     Inr (if refCount b = 1
          then m\<lparr>blocks := (blocks m)(header self := None),
                 capacity := capacity m + Suc (size_f b),
                 events := events m @ [Unref (header self) 0, Destroy (header self)]\<rparr>
          else m\<lparr>blocks := (blocks m)(header self \<mapsto> b\<lparr>refCount := refCount b - 1\<rparr>),
                 events := events m @ [Unref (header self) (refCount b - 1)]\<rparr>)"
  by (simp add: destructor_def header_unref_def destroy_def deref_def unref_def preSub_def)

lemma modify_sole_owner:
  "header self \<noteq> 0 \<Longrightarrow> blocks m (header self) = Some b \<Longrightarrow> refCount b = 1 \<Longrightarrow>
   modify d m self = Inr (m, self)"
  by (simp add: modify_def deref_def)

lemma modify_shared_eq:
  assumes "header self \<noteq> 0" and "blocks m (header self) = Some b" and "refCount b \<noteq> 1"
    and "wf_memory m" and "Suc (size_f b) \<le> capacity m"
  shows "modify d m self =
     Inr (m\<lparr>blocks := (blocks m)
               (nextAddr m \<mapsto> \<lparr>refCount = 1, size_f = size_f b, elements = elements b\<rparr>,
                header self \<mapsto> b\<lparr>refCount := refCount b - 1\<rparr>),
            nextAddr := Suc (nextAddr m),
            capacity := capacity m - Suc (size_f b),
            events := events m @ [Create (nextAddr m), Unref (header self) (refCount b - 1)]\<rparr>,
          \<lparr>header = nextAddr m\<rparr>)"
proof -
  from assms(4) have q: "nextAddr m \<noteq> 0" "blocks m (nextAddr m) = None"
    by (simp_all add: wf_memory_def)
  with assms(2) have ne: "nextAddr m \<noteq> header self" by auto
  have nz: "refCount b - 1 \<noteq> 0" using assms(3) by (simp add: pred_uint_zero)
  show ?thesis using assms q ne nz
    by (simp add: modify_def deref_def create_def Header_ctor_def header_unref_def unref_def
        preSub_def fun_upd_twist)
qed

lemma modify_shared_fail:
  assumes "header self \<noteq> 0" and "blocks m (header self) = Some b" and "refCount b \<noteq> 1"
    and "capacity m < Suc (size_f b)"
  shows "modify d m self = Inl (BadAlloc m)"
  using assms by (simp add: modify_def deref_def create_def)

lemma modify_null: "header self = 0 \<Longrightarrow> modify d m self = Inl Undefined"
  by (simp add: modify_def deref_def)

lemma set_elem_Inr:
  assumes "set_elem d m self i v = Inr (m2, self2)"
  shows "\<exists>m1 b1. modify d m self = Inr (m1, self2) \<and> header self2 \<noteq> 0
           \<and> blocks m1 (header self2) = Some b1 \<and> i < length (elements b1)
           \<and> m2 = m1\<lparr>blocks := (blocks m1)(header self2 \<mapsto> b1\<lparr>elements := (elements b1)[i := v]\<rparr>)\<rparr>"
  using assms
  by (auto simp: set_elem_def store_def deref_def split: sum.splits option.splits if_splits)

lemma operator_assign_eq:
  assumes "header self \<noteq> header source"
  shows "operator_assign m self source =
     (case destructor m self of Inl e \<Rightarrow> Inl e | Inr m2 \<Rightarrow> RefCountedArray_copy m2 source)"
  using assms
  by (cases self) (auto simp: operator_assign_def destructor_def RefCountedArray_copy_def
      split: sum.splits)

subsection \<open>Failures\<close>

lemma sized_fails: "RefCountedArray_sized d m n = Inl e \<Longrightarrow> e = BadAlloc m \<and> capacity m < Suc n"
  by (auto simp: RefCountedArray_sized_def create_def split: if_splits)

lemma modify_fails: "modify d m self = Inl (BadAlloc m') \<Longrightarrow> m' = m"
  by (auto simp: modify_def create_def header_unref_def destroy_def deref_def unref_def
      preSub_def Let_def split: option.splits if_splits sum.splits prod.splits)

lemma set_elem_fails: "set_elem d m self i v = Inl (BadAlloc m') \<Longrightarrow> m' = m"
  by (auto simp: set_elem_def store_def dest: modify_fails
      split: option.splits if_splits sum.splits prod.splits)

lemma copy_fails: "RefCountedArray_copy m source = Inl e \<Longrightarrow> e = Undefined"
  by (auto simp: RefCountedArray_copy_def header_ref_def Let_def
      split: option.splits if_splits sum.splits)

lemma destructor_fails: "destructor m self = Inl e \<Longrightarrow> e = Undefined"
  by (auto simp: destructor_def header_unref_def destroy_def unref_def preSub_def
      split: option.splits if_splits sum.splits prod.splits)

lemma assign_fails: "operator_assign m self source = Inl e \<Longrightarrow> e = Undefined"
  by (auto simp: operator_assign_def header_unref_def header_ref_def destroy_def unref_def
      preSub_def Let_def split: option.splits if_splits sum.splits prod.splits)

lemma thrown_BadAlloc: "thrown s e = BadAlloc s'' \<Longrightarrow> \<exists>m'. e = BadAlloc m' \<and> s'' = s\<lparr>mem := m'\<rparr>"
  by (cases e) auto

lemma step_fails:
  assumes "step d s x = Inl (BadAlloc s'')"
  shows "s'' = s"
proof (cases x)
  case (Default h)
  with assms show ?thesis by (simp split: if_splits)
next
  case (Sized h n)
  with assms show ?thesis
    by (auto split: if_splits sum.splits dest!: thrown_BadAlloc sized_fails)
next
  case (CopyCon h src)
  with assms show ?thesis
    by (auto split: if_splits option.splits sum.splits dest!: thrown_BadAlloc copy_fails)
next
  case (Assign h src)
  with assms show ?thesis
    by (auto split: if_splits option.splits sum.splits dest!: thrown_BadAlloc assign_fails)
next
  case (Destruct h)
  with assms show ?thesis
    by (auto split: if_splits option.splits sum.splits dest!: thrown_BadAlloc destructor_fails)
next
  case (Modify h)
  with assms show ?thesis
    by (auto split: if_splits option.splits sum.splits dest!: thrown_BadAlloc modify_fails)
next
  case (SetElem h i v)
  with assms show ?thesis
    by (auto split: if_splits option.splits sum.splits dest!: thrown_BadAlloc set_elem_fails)
qed

subsection \<open>Handle tables and logs\<close>

lemma refs_to_Nil [simp]: "refs_to p [] = 0"
  by (simp add: refs_to_def)

lemma refs_to_Cons [simp]:
  "refs_to p (kv # hs) = (if header (snd kv) = p then Suc (refs_to p hs) else refs_to p hs)"
  by (simp add: refs_to_def)

lemma refs_to_le_length: "refs_to p hs \<le> length hs"
  by (simp add: refs_to_def)

lemma refs_to_pos: "map_of hs h = Some r \<Longrightarrow> 0 < refs_to (header r) hs"
  by (induction hs) (auto split: if_splits)

lemma refs_to_delete:
  "distinct (map fst hs) \<Longrightarrow> map_of hs h = Some r \<Longrightarrow>
     refs_to p (AList.delete h hs) = (if header r = p then refs_to p hs - 1 else refs_to p hs)"
proof (induction hs)
  case Nil
  then show ?case by simp
next
  case (Cons kv hs)
  show ?case
  proof (cases "fst kv = h")
    case True
    with Cons.prems have "snd kv = r" and "h \<notin> fst ` set hs" by auto
    then have "AList.delete h hs = hs"
      by (simp add: delete_id)
    with True \<open>snd kv = r\<close> show ?thesis
      by (cases kv) (simp add: )
  next
    case False
    with Cons.prems have "map_of hs h = Some r" and "distinct (map fst hs)" by auto
    with Cons.IH have ih: "refs_to p (AList.delete h hs) = (if header r = p then refs_to p hs - 1 else refs_to p hs)"
      by simp
    have "0 < refs_to (header r) hs" using \<open>map_of hs h = Some r\<close> by (rule refs_to_pos)
    with False ih show ?thesis
      by (cases kv) (auto simp: )
  qed
qed

lemma refs_to_update:
  "map_of hs h = Some r \<Longrightarrow>
     refs_to p (AList.update h r' hs) =
       (if header r = p then refs_to p hs - 1 else refs_to p hs) + (if header r' = p then 1 else 0)"
proof (induction hs)
  case Nil
  then show ?case by simp
next
  case (Cons kv hs)
  show ?case
  proof (cases "fst kv = h")
    case True
    with Cons.prems have "snd kv = r" by auto
    with True show ?thesis by (cases kv) simp
  next
    case False
    with Cons.prems have m: "map_of hs h = Some r" by auto
    have "0 < refs_to (header r) hs" using m by (rule refs_to_pos)
    with False Cons.IH [OF m] show ?thesis by (cases kv) auto
  qed
qed

lemma length_update_present: "map_of hs h = Some r \<Longrightarrow> length (AList.update h r' hs) = length hs"
  by (induction hs) (auto split: if_splits)

lemma length_delete_le: "length (AList.delete h hs) \<le> length hs"
  by (simp add: AList.delete_eq)

lemma length_delete_lt: "map_of hs h = Some r \<Longrightarrow> length (AList.delete h hs) < length hs"
proof -
  assume "map_of hs h = Some r"
  then have "(h, r) \<in> set hs" by (rule map_of_SomeD)
  then have "length (filter (\<lambda>kv. h \<noteq> fst kv) hs) < length hs"
    by (rule length_filter_less) simp
  then show ?thesis by (simp add: AList.delete_eq case_prod_unfold)
qed

lemma set_update_subset:
  "kv \<in> set (AList.update h r' hs) \<Longrightarrow> kv = (h, r') \<or> kv \<in> set hs"
  by (induction hs) (auto split: if_splits)

lemma set_delete_subset: "kv \<in> set (AList.delete h hs) \<Longrightarrow> kv \<in> set hs \<and> fst kv \<noteq> h"
  by (auto simp: AList.delete_eq)

lemma update_same: "map_of hs h = Some r \<Longrightarrow> AList.update h r hs = hs"
  by (induction hs) (auto split: if_splits)

lemma refs_to_pos_iff: "(0 < refs_to p hs) = (\<exists>kv \<in> set hs. header (snd kv) = p)"
  by (induction hs) auto

lemma orderly_Unref: "c \<noteq> 0 \<Longrightarrow> orderly ys \<Longrightarrow> orderly (Unref p c # ys)"
  by (cases ys rule: orderly.cases) auto

lemma orderly_append: "orderly xs \<Longrightarrow> orderly ys \<Longrightarrow> orderly (xs @ ys)"
  by (induction xs rule: orderly.induct) (auto simp: orderly_Unref)

lemma handles_ok_refs:
  "handles_ok s =
     (distinct (map fst (handles s))
      \<and> (\<forall>p. 0 < refs_to p (handles s) \<longrightarrow> p = 0 \<or> blocks (mem s) p \<noteq> None))"
proof -
  let ?hs = "handles s"
  have "(\<forall>kv \<in> set ?hs. header (snd kv) \<noteq> 0 \<longrightarrow> blocks (mem s) (header (snd kv)) \<noteq> None)
      = (\<forall>p. 0 < refs_to p ?hs \<longrightarrow> p = 0 \<or> blocks (mem s) p \<noteq> None)" (is "?L = ?R")
  proof
    assume l: ?L
    show ?R
    proof (intro allI impI)
      fix p assume "0 < refs_to p ?hs"
      then obtain kv where "kv \<in> set ?hs" "header (snd kv) = p"
        by (auto simp: refs_to_pos_iff)
      with l [rule_format, of kv] show "p = 0 \<or> blocks (mem s) p \<noteq> None" by auto
    qed
  next
    assume r: ?R
    show ?L
    proof (intro ballI impI)
      fix kv assume kv: "kv \<in> set ?hs" and nz: "header (snd kv) \<noteq> 0"
      from kv have "0 < refs_to (header (snd kv)) ?hs"
        by (auto simp: refs_to_pos_iff)
      with r [rule_format, of "header (snd kv)"] nz
      show "blocks (mem s) (header (snd kv)) \<noteq> None" by simp
    qed
  qed
  then show ?thesis by (simp only: handles_ok_def)
qed

lemma counts_okI:
  "(\<And>p b. blocks (mem s) p = Some b \<Longrightarrow>
      unat (refCount b) = refs_to p (handles s) \<and> refCount b \<noteq> 0
      \<and> length (elements b) = size_f b) \<Longrightarrow> counts_ok s"
  by (simp add: counts_ok_def)

lemma counts_okD:
  "counts_ok s \<Longrightarrow> blocks (mem s) p = Some b \<Longrightarrow>
      unat (refCount b) = refs_to p (handles s) \<and> refCount b \<noteq> 0
      \<and> length (elements b) = size_f b"
  by (simp add: counts_ok_def)

lemma log_ok_step:
  assumes "log_ok s"
    and "events (mem s') = events (mem s) @ new"
    and "orderly new"
    and "\<And>p. count_list new (Destroy p) + (if destroyed (mem s) p then 1 else 0)
            = (if destroyed (mem s') p then 1 else 0)"
  shows "log_ok s'"
proof -
  have "orderly (events (mem s'))"
    using assms(1,2,3) by (simp add: log_ok_def orderly_append)
  moreover have "count_list (events (mem s')) (Destroy p)
        = (if destroyed (mem s') p then 1 else 0)" for p
  proof -
    have "count_list (events (mem s')) (Destroy p)
        = count_list new (Destroy p) + (if destroyed (mem s) p then 1 else 0)"
      using assms(1,2) by (simp add: log_ok_def)
    then show ?thesis using assms(4) [of p] by simp
  qed
  ultimately show ?thesis by (simp add: log_ok_def)
qed

lemma invariant_handles_cong:
  assumes "invariant \<lparr>mem = m, handles = hs\<rparr>"
    and "distinct (map fst hs')"
    and "\<And>p. refs_to p hs' = refs_to p hs"
  shows "invariant \<lparr>mem = m, handles = hs'\<rparr>"
  using assms
  by (simp add: invariant_def handles_ok_refs counts_ok_def log_ok_def)

lemma sizes_kept_refl: "sizes_kept s s"
  by (simp add: sizes_kept_def)

lemma sizes_kept_trans:
  assumes a: "sizes_kept s s1" and b: "sizes_kept s1 s2"
  shows "sizes_kept s s2"
proof -
  have le: "nextAddr (mem s) \<le> nextAddr (mem s2)"
    using a b by (simp add: sizes_kept_def)
  have "\<exists>b0. blocks (mem s) p = Some b0 \<and> size_f b2 = size_f b0"
    if p: "p < nextAddr (mem s)" and b2: "blocks (mem s2) p = Some b2" for p b2
  proof -
    from a p have "p < nextAddr (mem s1)" by (simp add: sizes_kept_def)
    with b b2 obtain b1 where b1: "blocks (mem s1) p = Some b1" "size_f b2 = size_f b1"
      unfolding sizes_kept_def by blast
    with a p obtain b0 where "blocks (mem s) p = Some b0" "size_f b1 = size_f b0"
      unfolding sizes_kept_def by blast
    with b1 show ?thesis by simp
  qed
  with le show ?thesis unfolding sizes_kept_def by blast
qed

subsection \<open>Every operation keeps the invariant\<close>

lemma invariant_live:
  assumes "invariant s" and "map_of (handles s) h = Some self" and "header self \<noteq> 0"
  shows "\<exists>b. blocks (mem s) (header self) = Some b"
proof -
  from assms(2) have "(h, self) \<in> set (handles s)" by (rule map_of_SomeD)
  with assms(1,3) show ?thesis
    unfolding invariant_def handles_ok_def by fastforce
qed

lemma invariant_nonnull:
  assumes "invariant s" and "blocks (mem s) p = Some b"
  shows "p \<noteq> 0"
proof
  assume "p = 0"
  with assms show False by (simp add: invariant_def)
qed

lemma invariant_below:
  assumes "invariant s" and "blocks (mem s) p = Some b"
  shows "p < nextAddr (mem s) \<and> 0 < p"
proof -
  from assms have "\<not> nextAddr (mem s) \<le> p"
    unfolding invariant_def wf_memory_def by auto
  moreover from assms have "p \<noteq> 0" by (rule invariant_nonnull)
  ultimately show ?thesis by simp
qed

lemma invariant_add_handle:
  assumes inv: "invariant s" and fresh: "map_of (handles s) h = None" and null: "header r = 0"
  shows "invariant \<lparr>mem = mem s, handles = (h, r) # handles s\<rparr>"
proof -
  let ?s' = "\<lparr>mem = mem s, handles = (h, r) # handles s\<rparr>"
  from fresh have nin: "h \<notin> fst ` set (handles s)" by (simp add: map_of_eq_None_iff)
  have ho: "handles_ok ?s'" using inv nin null
    by (simp add: invariant_def handles_ok_def)
  have co: "counts_ok ?s'"
  proof (rule counts_okI)
    fix p b assume pb: "blocks (mem ?s') p = Some b"
    then have "p \<noteq> 0" using invariant_nonnull [OF inv, of p b] by simp
    with pb null inv show "unat (refCount b) = refs_to p (handles ?s') \<and> refCount b \<noteq> 0
      \<and> length (elements b) = size_f b"
      by (simp add: invariant_def counts_ok_def)
  qed
  have lo: "log_ok ?s'" using inv by (simp add: invariant_def log_ok_def)
  from inv ho co lo show ?thesis by (simp add: invariant_def)
qed

lemma invariant_Default:
  assumes "invariant s" and "step d s (Default h) = Inr s'"
  shows "invariant s' \<and> sizes_kept s s' \<and> length (handles s') \<le> Suc (length (handles s))"
proof -
  from assms(2) have fresh: "map_of (handles s) h = None"
    and s': "s' = \<lparr>mem = mem s, handles = (h, RefCountedArray_void) # handles s\<rparr>"
    by (auto split: if_splits)
  have "invariant s'" unfolding s' using assms(1) fresh
    by (rule invariant_add_handle) (simp add: RefCountedArray_void_def)
  moreover have "sizes_kept s s'" using s' by (simp add: sizes_kept_def)
  ultimately show ?thesis using s' by simp
qed

lemma invariant_CopyCon:
  assumes inv: "invariant s" and bound: "length (handles s) < 2 ^ 32 - 1"
    and st: "step d s (CopyCon h src) = Inr s'"
  shows "invariant s' \<and> sizes_kept s s' \<and> length (handles s') \<le> Suc (length (handles s))"
proof -
  from st obtain source where fresh: "map_of (handles s) h = None"
    and src: "map_of (handles s) src = Some source"
    by (auto split: if_splits option.splits)
  from fresh have nin: "h \<notin> fst ` set (handles s)" by (simp add: map_of_eq_None_iff)
  show ?thesis
  proof (cases "header source = 0")
    case True
    with st fresh src have s': "s' = \<lparr>mem = mem s, handles = (h, \<lparr>header = header source\<rparr>) # handles s\<rparr>"
      by (simp add: RefCountedArray_copy_def)
    have "invariant s'" unfolding s' using inv fresh
      by (rule invariant_add_handle) (simp add: True)
    moreover have "sizes_kept s s'" using s' by (simp add: sizes_kept_def)
    ultimately show ?thesis using s' by simp
  next
    case False
    from invariant_live [OF inv src False] obtain b where b: "blocks (mem s) (header source) = Some b" ..
    let ?p = "header source"
    from st fresh src False b
    have s': "s' = \<lparr>mem = (mem s)\<lparr>blocks := (blocks (mem s))(?p \<mapsto> b\<lparr>refCount := refCount b + 1\<rparr>),
                                   events := events (mem s) @ [Ref ?p (refCount b + 1)]\<rparr>,
                    handles = (h, \<lparr>header = ?p\<rparr>) # handles s\<rparr>"
      by (simp add: RefCountedArray_copy_def header_ref_live)
    from inv have cok: "counts_ok s" by (simp add: invariant_def)
    note cb = counts_okD [OF cok b]
    from cb bound refs_to_le_length [of ?p "handles s"] have "unat (refCount b) < 2 ^ 32 - 1"
      by simp
    then have up: "unat (refCount b + 1) = Suc (unat (refCount b)) \<and> refCount b + 1 \<noteq> 0"
      by (rule unat_succ_uint)
    have wf: "wf_memory (mem s')" using inv b unfolding s' invariant_def wf_memory_def by auto
    have z: "blocks (mem s') 0 = None" using inv False unfolding s' invariant_def by simp
    have ho: "handles_ok s'" using inv nin unfolding s' invariant_def handles_ok_def by auto
    have co: "counts_ok s'"
    proof (rule counts_okI)
      fix q c assume qc: "blocks (mem s') q = Some c"
      show "unat (refCount c) = refs_to q (handles s') \<and> refCount c \<noteq> 0
        \<and> length (elements c) = size_f c"
      proof (cases "q = ?p")
        case True
        with qc have "c = b\<lparr>refCount := refCount b + 1\<rparr>" unfolding s' by simp
        with True up cb show ?thesis unfolding s' by simp
      next
        case False
        with qc have "blocks (mem s) q = Some c" unfolding s' by simp
        from counts_okD [OF cok this] False show ?thesis unfolding s' by simp
      qed
    qed
    have lo: "log_ok s'"
    proof (rule log_ok_step [where new = "[Ref ?p (refCount b + 1)]"])
      show "log_ok s" using inv by (simp add: invariant_def)
      show "events (mem s') = events (mem s) @ [Ref ?p (refCount b + 1)]" unfolding s' by simp
      show "orderly [Ref ?p (refCount b + 1)]" by simp
      show "count_list [Ref ?p (refCount b + 1)] (Destroy q)
              + (if destroyed (mem s) q then 1 else 0) = (if destroyed (mem s') q then 1 else 0)" for q
        using b unfolding s' destroyed_def by auto
    qed
    have sk: "sizes_kept s s'" using b unfolding s' sizes_kept_def by auto
    from wf z ho co lo sk show ?thesis unfolding s' by (simp add: invariant_def)
  qed
qed

lemma invariant_delete_handle:
  assumes inv: "invariant s" and h: "map_of (handles s) h = Some self" and null: "header self = 0"
  shows "invariant \<lparr>mem = mem s, handles = AList.delete h (handles s)\<rparr>"
proof -
  let ?s' = "\<lparr>mem = mem s, handles = AList.delete h (handles s)\<rparr>"
  from inv have dist: "distinct (map fst (handles s))" by (simp add: invariant_def handles_ok_def)
  note rd = refs_to_delete [OF dist h]
  have ho: "handles_ok ?s'" using inv
    by (auto simp: invariant_def handles_ok_def distinct_delete dest: set_delete_subset)
  have co: "counts_ok ?s'"
  proof (rule counts_okI)
    fix p b assume pb: "blocks (mem ?s') p = Some b"
    then have "p \<noteq> 0" using invariant_nonnull [OF inv, of p b] by simp
    with pb null inv rd [of p] show "unat (refCount b) = refs_to p (handles ?s') \<and> refCount b \<noteq> 0
      \<and> length (elements b) = size_f b"
      by (simp add: invariant_def counts_ok_def)
  qed
  have lo: "log_ok ?s'" using inv by (simp add: invariant_def log_ok_def)
  from inv ho co lo show ?thesis by (simp add: invariant_def)
qed

lemma invariant_Destruct:
  assumes inv: "invariant s" and st: "step d s (Destruct h) = Inr s'"
  shows "invariant s' \<and> sizes_kept s s' \<and> length (handles s') \<le> length (handles s)"
proof -
  from st obtain self where h: "map_of (handles s) h = Some self"
    by (auto split: option.splits)
  from inv have dist: "distinct (map fst (handles s))" by (simp add: invariant_def handles_ok_def)
  note rd = refs_to_delete [OF dist h]
  have len: "length (handles s') \<le> length (handles s)"
    using st h length_delete_le [of h "handles s"] by (auto split: sum.splits)
  show ?thesis
  proof (cases "header self = 0")
    case True
    with st h have s': "s' = \<lparr>mem = mem s, handles = AList.delete h (handles s)\<rparr>"
      by (simp add: destructor_def)
    have "invariant s'" unfolding s' using inv h True by (rule invariant_delete_handle)
    moreover have "sizes_kept s s'" using s' by (simp add: sizes_kept_def)
    ultimately show ?thesis using len by simp
  next
    case False
    from invariant_live [OF inv h False] obtain b where b: "blocks (mem s) (header self) = Some b" ..
    let ?p = "header self"
    from inv have cok: "counts_ok s" by (simp add: invariant_def)
    note cb = counts_okD [OF cok b]
    have dn: "unat (refCount b - 1) = unat (refCount b) - 1"
      using cb by (simp add: unat_minus_one)
    note below = invariant_below [OF inv b]
    show ?thesis
    proof (cases "refCount b = 1")
      case True
      with st h False b
      have s': "s' = \<lparr>mem = (mem s)\<lparr>blocks := (blocks (mem s))(?p := None),
                                     capacity := capacity (mem s) + Suc (size_f b),
                                     events := events (mem s) @ [Unref ?p 0, Destroy ?p]\<rparr>,
                      handles = AList.delete h (handles s)\<rparr>"
        by (simp add: destructor_live)
      from True cb have one: "refs_to ?p (handles s) = 1" by simp
      have none: "refs_to ?p (AList.delete h (handles s)) = 0" using rd [of ?p] one by simp
      have wf: "wf_memory (mem s')" using inv unfolding s' invariant_def wf_memory_def by auto
      have z: "blocks (mem s') 0 = None" using inv unfolding s' invariant_def by simp
      have ho: "handles_ok s'"
        unfolding handles_ok_refs
      proof (intro conjI allI impI)
        show "distinct (map fst (handles s'))" using dist unfolding s' by (simp add: distinct_delete)
      next
        fix q assume pos: "0 < refs_to q (handles s')"
        then have "q \<noteq> ?p" using none unfolding s' by auto
        moreover from pos rd [of q] have "0 < refs_to q (handles s)" unfolding s' by (auto split: if_splits)
        then have "q = 0 \<or> blocks (mem s) q \<noteq> None"
          using inv unfolding invariant_def handles_ok_refs by blast
        ultimately show "q = 0 \<or> blocks (mem s') q \<noteq> None" unfolding s' by simp
      qed
      have co: "counts_ok s'"
      proof (rule counts_okI)
        fix q c assume qc: "blocks (mem s') q = Some c"
        then have ne: "q \<noteq> ?p" and old: "blocks (mem s) q = Some c" unfolding s' by (auto split: if_splits)
        have "header self \<noteq> q" using ne by simp
        with counts_okD [OF cok old] rd [of q]
        show "unat (refCount c) = refs_to q (handles s') \<and> refCount c \<noteq> 0
          \<and> length (elements c) = size_f c" unfolding s' by simp
      qed
      have lo: "log_ok s'"
      proof (rule log_ok_step [where new = "[Unref ?p 0, Destroy ?p]"])
        show "log_ok s" using inv by (simp add: invariant_def)
        show "events (mem s') = events (mem s) @ [Unref ?p 0, Destroy ?p]" unfolding s' by simp
        show "orderly [Unref ?p 0, Destroy ?p]" by simp
        show "count_list [Unref ?p 0, Destroy ?p] (Destroy q)
              + (if destroyed (mem s) q then 1 else 0) = (if destroyed (mem s') q then 1 else 0)" for q
          using b below unfolding s' destroyed_def by auto
      qed
      have sk: "sizes_kept s s'" unfolding s' sizes_kept_def by (auto split: if_splits)
      from wf z ho co lo sk len show ?thesis by (simp add: invariant_def)
    next
      case nz: False
      with st h False b
      have s': "s' = \<lparr>mem = (mem s)\<lparr>blocks := (blocks (mem s))(?p \<mapsto> b\<lparr>refCount := refCount b - 1\<rparr>),
                                     events := events (mem s) @ [Unref ?p (refCount b - 1)]\<rparr>,
                      handles = AList.delete h (handles s)\<rparr>"
        by (simp add: destructor_live)
      have nz': "refCount b - 1 \<noteq> 0" using nz by (simp add: pred_uint_zero)
      have wf: "wf_memory (mem s')" using inv b unfolding s' invariant_def wf_memory_def by auto
      have z: "blocks (mem s') 0 = None" using inv False unfolding s' invariant_def by simp
      have ho: "handles_ok s'" using inv unfolding s' invariant_def handles_ok_def
        by (auto simp: distinct_delete dest: set_delete_subset)
      have co: "counts_ok s'"
      proof (rule counts_okI)
        fix q c assume qc: "blocks (mem s') q = Some c"
        show "unat (refCount c) = refs_to q (handles s') \<and> refCount c \<noteq> 0
          \<and> length (elements c) = size_f c"
        proof (cases "q = ?p")
          case True
          with qc have "c = b\<lparr>refCount := refCount b - 1\<rparr>" unfolding s' by simp
          with True dn nz' cb rd [of q] show ?thesis unfolding s' by simp
        next
          case False
          with qc have old: "blocks (mem s) q = Some c" unfolding s' by simp
          have "header self \<noteq> q" using False by simp
          with counts_okD [OF cok old] rd [of q] show ?thesis unfolding s' by simp
        qed
      qed
      have lo: "log_ok s'"
      proof (rule log_ok_step [where new = "[Unref ?p (refCount b - 1)]"])
        show "log_ok s" using inv by (simp add: invariant_def)
        show "events (mem s') = events (mem s) @ [Unref ?p (refCount b - 1)]" unfolding s' by simp
        show "orderly [Unref ?p (refCount b - 1)]" using nz' by simp
        show "count_list [Unref ?p (refCount b - 1)] (Destroy q)
              + (if destroyed (mem s) q then 1 else 0) = (if destroyed (mem s') q then 1 else 0)" for q
          using b unfolding s' destroyed_def by auto
      qed
      have sk: "sizes_kept s s'" using b unfolding s' sizes_kept_def by auto
      from wf z ho co lo sk len show ?thesis by (simp add: invariant_def)
    qed
  qed
qed

lemma invariant_Sized:
  assumes inv: "invariant s" and st: "step d s (Sized h n) = Inr s'"
  shows "invariant s' \<and> sizes_kept s s' \<and> length (handles s') \<le> Suc (length (handles s))"
proof -
  let ?q = "nextAddr (mem s)"
  let ?nb = "\<lparr>refCount = 1, size_f = n, elements = replicate n d\<rparr>"
  from st have fresh: "map_of (handles s) h = None"
    and s': "s' = \<lparr>mem = (mem s)\<lparr>blocks := (blocks (mem s))(?q \<mapsto> ?nb),
                                  nextAddr := Suc ?q,
                                  capacity := capacity (mem s) - Suc n,
                                  events := events (mem s) @ [Create ?q]\<rparr>,
                   handles = (h, \<lparr>header = ?q\<rparr>) # handles s\<rparr>"
    by (auto simp: RefCountedArray_sized_def create_def Header_ctor_def split: if_splits)
  from fresh have nin: "h \<notin> fst ` set (handles s)" by (simp add: map_of_eq_None_iff)
  from inv have q: "0 < ?q" "blocks (mem s) ?q = None"
    by (simp_all add: invariant_def wf_memory_def)
  from inv q have unref: "refs_to ?q (handles s) = 0"
    unfolding invariant_def handles_ok_refs by (metis neq0_conv)
  from inv have cok: "counts_ok s" by (simp add: invariant_def)
  have wf: "wf_memory (mem s')" using inv unfolding s' invariant_def wf_memory_def by auto
  have z: "blocks (mem s') 0 = None" using inv q unfolding s' invariant_def by simp
  have ho: "handles_ok s'" using inv nin unfolding s' invariant_def handles_ok_def by auto
  have co: "counts_ok s'"
  proof (rule counts_okI)
    fix p c assume pc: "blocks (mem s') p = Some c"
    show "unat (refCount c) = refs_to p (handles s') \<and> refCount c \<noteq> 0
      \<and> length (elements c) = size_f c"
    proof (cases "p = ?q")
      case True
      with pc have "c = ?nb" unfolding s' by simp
      with True unref show ?thesis unfolding s' by simp
    next
      case False
      with pc have old: "blocks (mem s) p = Some c" unfolding s' by simp
      from counts_okD [OF cok old] False show ?thesis unfolding s' by simp
    qed
  qed
  have lo: "log_ok s'"
  proof (rule log_ok_step [where new = "[Create ?q]"])
    show "log_ok s" using inv by (simp add: invariant_def)
    show "events (mem s') = events (mem s) @ [Create ?q]" unfolding s' by simp
    show "orderly [Create ?q]" by simp
    show "count_list [Create ?q] (Destroy p)
          + (if destroyed (mem s) p then 1 else 0) = (if destroyed (mem s') p then 1 else 0)" for p
      using q unfolding s' destroyed_def by auto
  qed
  have sk: "sizes_kept s s'" using q unfolding s' sizes_kept_def by auto
  from wf z ho co lo sk show ?thesis unfolding s' by (simp add: invariant_def)
qed

lemma invariant_write:
  assumes inv: "invariant s" and b: "blocks (mem s) p = Some b"
    and len: "length xs = length (elements b)"
    and s': "s' = \<lparr>mem = (mem s)\<lparr>blocks := (blocks (mem s))(p \<mapsto> b\<lparr>elements := xs\<rparr>)\<rparr>,
                   handles = handles s\<rparr>"
  shows "invariant s' \<and> sizes_kept s s'"
proof -
  from inv have cok: "counts_ok s" by (simp add: invariant_def)
  note nn = invariant_nonnull [OF inv b]
  have wf: "wf_memory (mem s')" using inv b unfolding s' invariant_def wf_memory_def by auto
  have z: "blocks (mem s') 0 = None" using inv nn unfolding s' invariant_def by simp
  have ho: "handles_ok s'" using inv unfolding s' invariant_def handles_ok_def by auto
  have co: "counts_ok s'"
  proof (rule counts_okI)
    fix q c assume qc: "blocks (mem s') q = Some c"
    show "unat (refCount c) = refs_to q (handles s') \<and> refCount c \<noteq> 0
      \<and> length (elements c) = size_f c"
    proof (cases "q = p")
      case True
      with qc have "c = b\<lparr>elements := xs\<rparr>" unfolding s' by simp
      with True counts_okD [OF cok b] len show ?thesis unfolding s' by simp
    next
      case False
      with qc have old: "blocks (mem s) q = Some c" unfolding s' by simp
      from counts_okD [OF cok old] show ?thesis unfolding s' by simp
    qed
  qed
  have lo: "log_ok s'" using inv b unfolding s' invariant_def log_ok_def destroyed_def by auto
  have sk: "sizes_kept s s'" using b unfolding s' sizes_kept_def by auto
  from wf z ho co lo sk show ?thesis by (simp add: invariant_def)
qed

lemma invariant_Modify:
  assumes inv: "invariant s" and st: "step d s (Modify h) = Inr s'"
  shows "invariant s' \<and> sizes_kept s s' \<and> length (handles s') \<le> length (handles s)
     \<and> (\<exists>self'. map_of (handles s') h = Some self' \<and> header self' \<noteq> 0)"
proof -
  from st obtain self where h: "map_of (handles s) h = Some self"
    by (auto split: option.splits)
  have nonnull: "header self \<noteq> 0"
  proof
    assume "header self = 0"
    then have "modify d (mem s) self = Inl Undefined" by (rule modify_null)
    with st h show False by simp
  qed
  from invariant_live [OF inv h nonnull] obtain b where b: "blocks (mem s) (header self) = Some b" ..
  let ?p = "header self"
  from inv have cok: "counts_ok s" by (simp add: invariant_def)
  from inv have wfs: "wf_memory (mem s)" by (simp add: invariant_def)
  from inv have dist: "distinct (map fst (handles s))" by (simp add: invariant_def handles_ok_def)
  note cb = counts_okD [OF cok b]
  show ?thesis
  proof (cases "refCount b = 1")
    case True
    with st h nonnull b have "s' = \<lparr>mem = mem s, handles = AList.update h self (handles s)\<rparr>"
      by (simp add: modify_sole_owner)
    with h have "s' = s" by (simp add: update_same)
    with inv h nonnull show ?thesis by (simp add: sizes_kept_refl)
  next
    case False
    have cap: "Suc (size_f b) \<le> capacity (mem s)"
    proof (rule ccontr)
      assume "\<not> Suc (size_f b) \<le> capacity (mem s)"
      then have "capacity (mem s) < Suc (size_f b)" by simp
      from modify_shared_fail [OF nonnull b False this] st h show False by simp
    qed
    let ?q = "nextAddr (mem s)"
    let ?nb = "\<lparr>refCount = 1, size_f = size_f b, elements = elements b\<rparr>"
    let ?ob = "b\<lparr>refCount := refCount b - 1\<rparr>"
    from st h modify_shared_eq [OF nonnull b False wfs cap, of d]
    have s': "s' = \<lparr>mem = (mem s)\<lparr>blocks := (blocks (mem s))(?q \<mapsto> ?nb, ?p \<mapsto> ?ob),
                                   nextAddr := Suc ?q,
                                   capacity := capacity (mem s) - Suc (size_f b),
                                   events := events (mem s) @ [Create ?q, Unref ?p (refCount b - 1)]\<rparr>,
                    handles = AList.update h \<lparr>header = ?q\<rparr> (handles s)\<rparr>"
      by simp
    from wfs have q: "0 < ?q" "blocks (mem s) ?q = None" by (simp_all add: wf_memory_def)
    with b have qp: "?q \<noteq> ?p" by auto
    from inv q have unref: "refs_to ?q (handles s) = 0"
      unfolding invariant_def handles_ok_refs by (metis neq0_conv)
    note ru = refs_to_update [OF h, of _ "\<lparr>header = ?q\<rparr>"]
    have nz': "refCount b - 1 \<noteq> 0" using False by (simp add: pred_uint_zero)
    have dn: "unat (refCount b - 1) = unat (refCount b) - 1"
      using cb by (simp add: unat_minus_one)
    have len: "length (handles s') = length (handles s)"
      unfolding s' using h by (simp add: length_update_present)
    have wf: "wf_memory (mem s')"
      using wfs invariant_below [OF inv b] unfolding s' wf_memory_def by auto
    have z: "blocks (mem s') 0 = None" using inv q nonnull unfolding s' invariant_def by simp
    have ho: "handles_ok s'"
      unfolding handles_ok_def
    proof (intro conjI ballI impI)
      show "distinct (map fst (handles s'))" using dist unfolding s' by (simp add: distinct_update)
    next
      fix kv assume kv: "kv \<in> set (handles s')" and nn: "header (snd kv) \<noteq> 0"
      from kv have "kv = (h, \<lparr>header = ?q\<rparr>) \<or> kv \<in> set (handles s)"
        unfolding s' by (auto dest: set_update_subset)
      then show "blocks (mem s') (header (snd kv)) \<noteq> None"
      proof
        assume "kv = (h, \<lparr>header = ?q\<rparr>)"
        then show ?thesis using qp unfolding s' by simp
      next
        assume "kv \<in> set (handles s)"
        with inv nn have "blocks (mem s) (header (snd kv)) \<noteq> None"
          unfolding invariant_def handles_ok_def by blast
        then show ?thesis unfolding s' by simp
      qed
    qed
    have co: "counts_ok s'"
    proof (rule counts_okI)
      fix r c assume rc: "blocks (mem s') r = Some c"
      show "unat (refCount c) = refs_to r (handles s') \<and> refCount c \<noteq> 0
        \<and> length (elements c) = size_f c"
      proof (cases "r = ?p")
        case True
        with rc have "c = ?ob" unfolding s' by simp
        with True dn nz' cb ru [of r] qp show ?thesis unfolding s' by simp
      next
        case np: False
        show ?thesis
        proof (cases "r = ?q")
          case True
          with rc qp have "c = ?nb" unfolding s' by simp
          with True unref cb ru [of r] qp show ?thesis unfolding s' by simp
        next
          case False
          with rc np have old: "blocks (mem s) r = Some c" unfolding s' by simp
          have "header self \<noteq> r" "nextAddr (mem s) \<noteq> r" using False np by simp_all
          with counts_okD [OF cok old] ru [of r] show ?thesis unfolding s' by simp
        qed
      qed
    qed
    have lo: "log_ok s'"
    proof (rule log_ok_step [where new = "[Create ?q, Unref ?p (refCount b - 1)]"])
      show "log_ok s" using inv by (simp add: invariant_def)
      show "events (mem s') = events (mem s) @ [Create ?q, Unref ?p (refCount b - 1)]"
        unfolding s' by simp
      show "orderly [Create ?q, Unref ?p (refCount b - 1)]" using nz' by simp
      show "count_list [Create ?q, Unref ?p (refCount b - 1)] (Destroy r)
            + (if destroyed (mem s) r then 1 else 0) = (if destroyed (mem s') r then 1 else 0)" for r
        using q b unfolding s' destroyed_def by auto
    qed
    have sk: "sizes_kept s s'" using q b unfolding s' sizes_kept_def by auto
    have hh: "map_of (handles s') h = Some \<lparr>header = ?q\<rparr>"
      unfolding s' by (simp add: update_conv')
    from wf z ho co lo sk len hh q show ?thesis by (simp add: invariant_def)
  qed
qed

lemma invariant_SetElem:
  assumes inv: "invariant s" and st: "step d s (SetElem h i v) = Inr s'"
  shows "invariant s' \<and> sizes_kept s s' \<and> length (handles s') \<le> length (handles s)"
proof -
  from st obtain self m2 self2 where h: "map_of (handles s) h = Some self"
    and se: "set_elem d (mem s) self i v = Inr (m2, self2)"
    and s': "s' = \<lparr>mem = m2, handles = AList.update h self2 (handles s)\<rparr>"
    by (auto split: option.splits sum.splits)
  from set_elem_Inr [OF se] obtain m1 b1 where mo: "modify d (mem s) self = Inr (m1, self2)"
    and nn: "header self2 \<noteq> 0" and b1: "blocks m1 (header self2) = Some b1"
    and i: "i < length (elements b1)"
    and m2: "m2 = m1\<lparr>blocks := (blocks m1)(header self2 \<mapsto> b1\<lparr>elements := (elements b1)[i := v]\<rparr>)\<rparr>"
    by blast
  let ?s1 = "\<lparr>mem = m1, handles = AList.update h self2 (handles s)\<rparr>"
  from h mo have st1: "step d s (Modify h) = Inr ?s1" by simp
  from invariant_Modify [OF inv st1]
  have inv1: "invariant ?s1" and sk1: "sizes_kept s ?s1"
    and len1: "length (handles ?s1) \<le> length (handles s)" by simp_all
  have "invariant s' \<and> sizes_kept ?s1 s'"
  proof (rule invariant_write [OF inv1])
    show "blocks (mem ?s1) (header self2) = Some b1" using b1 by simp
    show "length ((elements b1)[i := v]) = length (elements b1)" by simp
    show "s' = \<lparr>mem = (mem ?s1)\<lparr>blocks := (blocks (mem ?s1))
                   (header self2 \<mapsto> b1\<lparr>elements := (elements b1)[i := v]\<rparr>)\<rparr>,
                handles = handles ?s1\<rparr>"
      unfolding s' m2 by simp
  qed
  with sk1 len1 show ?thesis using s' by (auto intro: sizes_kept_trans)
qed

lemma invariant_Assign:
  assumes inv: "invariant s" and bound: "length (handles s) < 2 ^ 32"
    and st: "step d s (Assign h src) = Inr s'"
  shows "invariant s' \<and> sizes_kept s s' \<and> length (handles s') \<le> length (handles s)"
proof -
  from st obtain self source m3 self3 where h: "map_of (handles s) h = Some self"
    and src: "map_of (handles s) src = Some source"
    and oa: "operator_assign (mem s) self source = Inr (m3, self3)"
    and s': "s' = \<lparr>mem = m3, handles = AList.update h self3 (handles s)\<rparr>"
    by (auto split: option.splits sum.splits)
  from inv have dist: "distinct (map fst (handles s))" by (simp add: invariant_def handles_ok_def)
  have len: "length (handles s') = length (handles s)"
    unfolding s' using h by (simp add: length_update_present)
  show ?thesis
  proof (cases "header self = header source")
    case True
    with oa have "m3 = mem s" "self3 = self" by (simp_all add: operator_assign_def)
    with s' h have "s' = s" by (simp add: update_same)
    with inv show ?thesis by (simp add: sizes_kept_refl)
  next
    case False
    then have hs: "h \<noteq> src" using h src by auto
    from oa operator_assign_eq [OF False, of "mem s"] obtain m2
      where de: "destructor (mem s) self = Inr m2"
        and cp: "RefCountedArray_copy m2 source = Inr (m3, self3)"
      by (auto split: sum.splits)
    let ?s1 = "\<lparr>mem = m2, handles = AList.delete h (handles s)\<rparr>"
    let ?s2 = "\<lparr>mem = m3, handles = (h, self3) # AList.delete h (handles s)\<rparr>"
    from h de have st1: "step d s (Destruct h) = Inr ?s1" by simp
    from invariant_Destruct [OF inv st1]
    have inv1: "invariant ?s1" and sk1: "sizes_kept s ?s1" by simp_all
    have b1: "length (handles ?s1) < 2 ^ 32 - 1"
      using bound length_delete_lt [OF h] by simp
    have "map_of (handles ?s1) h = None" by (simp add: delete_conv')
    moreover have "map_of (handles ?s1) src = Some source" using src hs by (simp add: delete_conv')
    ultimately have st2: "step d ?s1 (CopyCon h src) = Inr ?s2" using cp by simp
    from invariant_CopyCon [OF inv1 b1 st2]
    have inv2: "invariant ?s2" and sk2: "sizes_kept ?s1 ?s2" by simp_all
    have "invariant \<lparr>mem = m3, handles = AList.update h self3 (handles s)\<rparr>"
    proof (rule invariant_handles_cong [OF inv2])
      show "distinct (map fst (AList.update h self3 (handles s)))"
        using dist by (simp add: distinct_update)
      show "refs_to p (AList.update h self3 (handles s))
          = refs_to p ((h, self3) # AList.delete h (handles s))" for p
        using refs_to_update [OF h, of p self3] refs_to_delete [OF dist h, of p] by simp
    qed
    moreover have "sizes_kept s s'"
      using sizes_kept_trans [OF sk1 sk2] unfolding s' sizes_kept_def by simp
    ultimately show ?thesis using len s' by simp
  qed
qed

lemma invariant_init: "invariant (init_system cap)"
  by (auto simp: invariant_def init_system_def init_memory_def wf_memory_def handles_ok_def
      counts_ok_def log_ok_def destroyed_def)

lemma invariant_step:
  assumes "invariant s" and "length (handles s) < 2 ^ 32" and "length (handles s') < 2 ^ 32"
    and "step d s x = Inr s'"
  shows "invariant s' \<and> sizes_kept s s'"
proof (cases x)
  case (Default h)
  with assms invariant_Default [of s d h s'] show ?thesis by simp
next
  case (Sized h n)
  with assms invariant_Sized [of s d h n s'] show ?thesis by simp
next
  case (CopyCon h src)
  with assms(4) have "length (handles s') = Suc (length (handles s))"
    by (auto split: if_splits option.splits sum.splits)
  with assms(3) have "length (handles s) < 2 ^ 32 - 1" by simp
  with CopyCon assms invariant_CopyCon [of s d h src s'] show ?thesis by simp
next
  case (Assign h src)
  with assms invariant_Assign [of s d h src s'] show ?thesis by simp
next
  case (Destruct h)
  with assms invariant_Destruct [of s d h s'] show ?thesis by simp
next
  case (Modify h)
  with assms invariant_Modify [of s d h s'] show ?thesis by simp
next
  case (SetElem h i v)
  with assms invariant_SetElem [of s d h i v s'] show ?thesis by simp
qed

lemma handle_peak_ge: "length (handles s) \<le> handle_peak d s ops"
  by (cases ops) (auto split: sum.splits)

lemma invariant_run:
  "invariant s \<Longrightarrow> handle_peak d s ops < 2 ^ 32 \<Longrightarrow> run d s ops = Inr s' \<Longrightarrow>
     invariant s' \<and> sizes_kept s s'"
proof (induction ops arbitrary: s)
  case Nil
  then show ?case by (simp add: sizes_kept_refl)
next
  case (Cons x xs)
  from Cons.prems(3) obtain s1 where st: "step d s x = Inr s1" and rn: "run d s1 xs = Inr s'"
    by (auto split: sum.splits)
  from Cons.prems(2) st have l0: "length (handles s) < 2 ^ 32"
    and p1: "handle_peak d s1 xs < 2 ^ 32" by simp_all
  from p1 handle_peak_ge [of s1 d xs] have l1: "length (handles s1) < 2 ^ 32" by simp
  from invariant_step [OF Cons.prems(1) l0 l1 st]
  have i1: "invariant s1" and k1: "sizes_kept s s1" by simp_all
  from Cons.IH [OF i1 p1 rn] k1 show ?case by (auto intro: sizes_kept_trans)
qed

subsection \<open>The example states are reached\<close>

lemma run_append:
  "run d s (xs @ ys) = (case run d s xs of Inl e \<Rightarrow> Inl e | Inr s' \<Rightarrow> run d s' ys)"
  by (induction xs arbitrary: s) (auto split: sum.splits)

lemma run_single: "run d s [x] = step d s x"
  by (simp split: sum.splits)

lemma map_of_shared_handles:
  "map_of (rev (map (\<lambda>j. (j, r)) [0..<k])) h = (if h < k then Some r else None)"
  by (induction k) auto

lemma refs_to_shared_handles:
  "refs_to p (rev (map (\<lambda>j. (j, \<lparr>header = p\<rparr>)) [0..<k])) = k"
  by (induction k) auto

lemma step_copy_shared:
  "step d (shared_by k d n cap) (CopyCon (Suc k) 0) = Inr (shared_by (Suc k) d n cap)"
  by (simp add: shared_by_def map_of_shared_handles RefCountedArray_copy_def header_ref_def
      deref_def ref_def preAdd_def add.commute)

lemma run_copy_ops:
  assumes "Suc n \<le> cap"
  shows "run d (init_system cap) (Sized 0 n # copy_ops k) = Inr (shared_by k d n cap)"
proof (induction k)
  case 0
  show ?case using assms
    by (simp add: copy_ops_def shared_by_def init_system_def init_memory_def
        RefCountedArray_sized_def create_def Header_ctor_def)
next
  case (Suc k)
  have "copy_ops (Suc k) = copy_ops k @ [CopyCon (Suc k) 0 :: 'a op]"
    by (simp add: copy_ops_def)
  then have "run d (init_system cap) (Sized 0 n # copy_ops (Suc k))
      = run d (init_system cap) ((Sized 0 n # copy_ops k) @ [CopyCon (Suc k) 0])" by simp
  also have "\<dots> = step d (shared_by k d n cap) (CopyCon (Suc k) 0)"
    unfolding run_append Suc.IH by (simp only: sum.case run_single)
  finally show ?case by (simp only: step_copy_shared)
qed

lemma mem_123_reached:
  "run 0 (init_system 10) [Sized 0 3, SetElem 0 0 1, SetElem 0 1 2, SetElem 0 2 3]
     = Inr \<lparr>mem = mem_123, handles = [(0, \<lparr>header = 1\<rparr>)]\<rparr>"
  by (simp add: init_system_def init_memory_def RefCountedArray_sized_def create_def
      Header_ctor_def set_elem_def modify_def store_def deref_def mem_123_def
      numeral_3_eq_3 numeral_2_eq_2)

lemma two_blocks_reached:
  "run 0 (init_system 10) [Sized 0 3, Sized 1 2]
     = Inr \<lparr>mem = two_blocks, handles = [(1, \<lparr>header = 2\<rparr>), (0, \<lparr>header = 1\<rparr>)]\<rparr>"
  by (simp add: init_system_def init_memory_def RefCountedArray_sized_def create_def
      Header_ctor_def two_blocks_def numeral_3_eq_3 numeral_2_eq_2)

lemma All_less_3: "(\<forall>j < (3::nat). P j) = (P 0 \<and> P 1 \<and> P 2)"
  by (auto simp: numeral_3_eq_3 numeral_2_eq_2 less_Suc_eq)

section \<open>The claims\<close>

subsection \<open>Copy-on-write\<close>

text \<open>
  C1. Copy-on-write isolation. In a well-formed store with room for one more block of
  the same size, let handle \<open>A\<close> reference a live block (its count not zero) with
  elements \<open>xs\<close> (in the witness \<open>[1,2,3]\<close>) and let \<open>B\<close> be a copy of \<open>A\<close>. After
  \<open>B.set(i, v)\<close> (in the witness \<open>B.set(0, 99)\<close>) every element of \<open>A\<close> reads as
  before, \<open>B\<close> reads \<open>v\<close> at \<open>i\<close> and the same as \<open>A\<close> elsewhere, and after \<open>A\<close> is
  destroyed \<open>B\<close> is still valid, has the same size and holds \<open>xs[i := v]\<close>.
\<close>

theorem copy_on_write_isolation:
  assumes wf: "wf_memory m" and A: "deref m (header A) = Some b" and live: "refCount b \<noteq> 0"
    and room: "Suc (size_f b) \<le> capacity m" and i: "i < length (elements b)"
  shows "\<exists>m1 B m2 B' m3.
      RefCountedArray_copy m A = Inr (m1, B)
    \<and> set_elem d m1 B i v = Inr (m2, B')
    \<and> (\<forall>j < length (elements b).
          index_const m2 A j = Inr (elements b ! j)
          \<and> index_const m2 B' j = Inr ((elements b)[i := v] ! j))
    \<and> destructor m2 A = Inr m3
    \<and> isValid B' \<and> getSize m3 B' = Inr (size_f b)
    \<and> (\<forall>j < length (elements b). index_const m3 B' j = Inr ((elements b)[i := v] ! j))"
proof -
  let ?p = "header A" and ?q = "nextAddr m"
  from A have p: "?p \<noteq> 0" "blocks m ?p = Some b" by (auto simp: deref_def split: if_splits)
  from wf have q: "?q \<noteq> 0" "blocks m ?q = None" by (simp_all add: wf_memory_def)
  with p have qp: "?q \<noteq> ?p" by auto
  let ?b1 = "b\<lparr>refCount := refCount b + 1\<rparr>"
  let ?m1 = "m\<lparr>blocks := (blocks m)(?p \<mapsto> ?b1), events := events m @ [Ref ?p (refCount b + 1)]\<rparr>"
  let ?B = "\<lparr>header = ?p\<rparr>"
  have c: "RefCountedArray_copy m A = Inr (?m1, ?B)"
    using p by (simp add: RefCountedArray_copy_def header_ref_live)
  have wf1: "wf_memory ?m1" using wf p unfolding wf_memory_def by auto
  have sh: "refCount ?b1 \<noteq> 1" using live by simp
  let ?nb = "\<lparr>refCount = 1, size_f = size_f b, elements = elements b\<rparr>"
  let ?m2' = "?m1\<lparr>blocks := (blocks ?m1)(?q \<mapsto> ?nb, ?p \<mapsto> ?b1\<lparr>refCount := refCount ?b1 - 1\<rparr>),
                  nextAddr := Suc ?q,
                  capacity := capacity ?m1 - Suc (size_f ?b1),
                  events := events ?m1 @ [Create ?q, Unref ?p (refCount ?b1 - 1)]\<rparr>"
  let ?B' = "\<lparr>header = ?q\<rparr>"
  have "modify d ?m1 ?B = Inr (?m2', ?B')"
    using modify_shared_eq [of ?B ?m1 ?b1 d] p sh wf1 room by simp
  moreover
  let ?m2 = "?m2'\<lparr>blocks := (blocks ?m2')(?q \<mapsto> ?nb\<lparr>elements := (elements b)[i := v]\<rparr>)\<rparr>"
  have "store ?m2' (?q, i) v = Inr ?m2"
    using q qp i by (simp add: store_def deref_def)
  ultimately have s: "set_elem d ?m1 ?B i v = Inr (?m2, ?B')"
    by (simp add: set_elem_def)
  have rd: "\<forall>j < length (elements b).
          index_const ?m2 A j = Inr (elements b ! j)
          \<and> index_const ?m2 ?B' j = Inr ((elements b)[i := v] ! j)"
    using p q qp by (simp add: index_const_def deref_def)
  have "blocks ?m2 ?p = Some (b\<lparr>refCount := refCount b\<rparr>)" using qp by simp
  from destructor_live [OF p(1) this]
  obtain m3 where d3: "destructor ?m2 A = Inr m3" and keep: "blocks m3 ?q = blocks ?m2 ?q"
    using qp by (auto split: if_splits)
  have "isValid ?B'" using q by (simp add: isValid_def)
  moreover have "getSize m3 ?B' = Inr (size_f b)"
    using keep q by (simp add: getSize_def deref_def)
  moreover have "\<forall>j < length (elements b). index_const m3 ?B' j = Inr ((elements b)[i := v] ! j)"
    using keep q by (simp add: index_const_def deref_def)
  ultimately show ?thesis using c s rd d3 by blast
qed

theorem copy_on_write_isolation_witness:
  "wf_memory mem_123
   \<and> deref mem_123 (header \<lparr>header = 1\<rparr>) = Some \<lparr>refCount = 1, size_f = 3, elements = [1, 2, 3]\<rparr>
   \<and> (\<exists>m1 B m2 B' m3.
        RefCountedArray_copy mem_123 \<lparr>header = 1\<rparr> = Inr (m1, B)
      \<and> set_elem 0 m1 B 0 99 = Inr (m2, B')
      \<and> index_const m2 \<lparr>header = 1\<rparr> 0 = Inr 1 \<and> index_const m2 B' 0 = Inr 99
      \<and> index_const m2 \<lparr>header = 1\<rparr> 1 = Inr 2 \<and> index_const m2 B' 1 = Inr 2
      \<and> destructor m2 \<lparr>header = 1\<rparr> = Inr m3
      \<and> isValid B' \<and> getSize m3 B' = Inr 3
      \<and> index_const m3 B' 0 = Inr 99 \<and> index_const m3 B' 1 = Inr 2 \<and> index_const m3 B' 2 = Inr 3)"
proof -
  let ?b = "\<lparr>refCount = 1, size_f = 3, elements = [1, 2, 3 :: int]\<rparr>"
  have wf: "wf_memory mem_123" by (simp add: wf_memory_def mem_123_def)
  have A: "deref mem_123 (header \<lparr>header = 1\<rparr>) = Some ?b" by (simp add: deref_def mem_123_def)
  have live: "refCount ?b \<noteq> 0" by simp
  have room: "Suc (size_f ?b) \<le> capacity mem_123" by (simp add: mem_123_def)
  have i: "0 < length (elements ?b)" by simp
  from copy_on_write_isolation [OF wf A live room i, of 0 99]
  obtain m1 B m2 B' m3 where
    "RefCountedArray_copy mem_123 \<lparr>header = 1\<rparr> = Inr (m1, B)"
    "set_elem 0 m1 B 0 99 = Inr (m2, B')"
    and r2: "\<forall>j < 3. index_const m2 \<lparr>header = 1\<rparr> j = Inr ([1, 2, 3] ! j)
          \<and> index_const m2 B' j = Inr ([99, 2, 3] ! j)"
    and "destructor m2 \<lparr>header = 1\<rparr> = Inr m3" "isValid B'" "getSize m3 B' = Inr 3"
    and r3: "\<forall>j < 3. index_const m3 B' j = Inr ([99, 2, 3] ! j)"
    by auto
  moreover from r2 have "index_const m2 \<lparr>header = 1\<rparr> 0 = Inr 1" "index_const m2 B' 0 = Inr 99"
    "index_const m2 \<lparr>header = 1\<rparr> 1 = Inr 2" "index_const m2 B' 1 = Inr 2"
    by (simp_all add: All_less_3)
  moreover from r3 have "index_const m3 B' 0 = Inr 99" "index_const m3 B' 1 = Inr 2"
    "index_const m3 B' 2 = Inr 3"
    by (simp_all add: All_less_3)
  ultimately show ?thesis using wf A by blast
qed

text \<open>
  C2, as stated, fails: of the three mutating accessors only \<open>set\<close> invokes
  \<open>modify\<close>. With two handles sharing block 1 (reference count 2), the non-const
  \<open>getArray\<close> and \<open>operator[]\<close> return a pointer into the shared block and leave store
  and handle as they were, where the accessors that invoke \<open>modify\<close> first would have
  moved the handle to a fresh block.
\<close>

theorem mutating_accessors_counterexample:
  "run 0 (init_system 10) (Sized 0 3 # copy_ops 1) = Inr (shared_by 1 (0::int) 3 10)
   \<and> map_of (handles (shared_by 1 (0::int) 3 10)) 0 = Some \<lparr>header = 1\<rparr>
   \<and> map_of (handles (shared_by 1 (0::int) 3 10)) 1 = Some \<lparr>header = 1\<rparr>
   \<and> map_option refCount (deref (mem (shared_by 1 (0::int) 3 10)) 1) = Some 2
   \<and> getArray (mem (shared_by 1 (0::int) 3 10)) \<lparr>header = 1\<rparr>
       = Inr (mem (shared_by 1 0 3 10), \<lparr>header = 1\<rparr>, (1, 0))
   \<and> getArray (mem (shared_by 1 (0::int) 3 10)) \<lparr>header = 1\<rparr>
       \<noteq> getArray_spec 0 (mem (shared_by 1 0 3 10)) \<lparr>header = 1\<rparr>
   \<and> index_op (mem (shared_by 1 (0::int) 3 10)) \<lparr>header = 1\<rparr> 0
       = Inr (mem (shared_by 1 0 3 10), \<lparr>header = 1\<rparr>, (1, 0))
   \<and> index_op (mem (shared_by 1 (0::int) 3 10)) \<lparr>header = 1\<rparr> 0
       \<noteq> index_op_spec 0 (mem (shared_by 1 0 3 10)) \<lparr>header = 1\<rparr> 0"
proof -
  have r: "run 0 (init_system 10) (Sized 0 3 # copy_ops 1) = Inr (shared_by 1 (0::int) 3 10)"
    by (rule run_copy_ops) simp
  have two: "(of_nat (Suc 1) :: uint) = 2" by simp
  show ?thesis
    unfolding r
    by (simp add: shared_by_def getArray_def getArray_spec_def index_op_def index_op_spec_def
        modify_def create_def Header_ctor_def header_unref_def unref_def preSub_def deref_def two)
qed

text \<open>
  C2, amended. On a valid handle in a well-formed store (with room for the copy if the
  block is shared) and an index in range, \<open>set(index, value)\<close> first invokes
  \<open>modify\<close> and then writes through the block: afterwards the handle references a
  block with reference count 1 that holds the old elements with the new value at the
  index, and if the block was shared the old block still exists, unwritten, with its
  count one lower. The non-const \<open>getArray()\<close> and \<open>operator[]\<close> do not invoke
  \<open>modify\<close>: they return a pointer into the block the handle references, shared or
  not, and change neither store nor handle.
\<close>

theorem set_unshares_accessors_do_not:
  assumes wf: "wf_memory m" and live: "deref m (header this) = Some b"
    and room: "refCount b = 1 \<or> Suc (size_f b) \<le> capacity m"
    and i: "i < length (elements b)"
  shows "(\<exists>m' this' b'. set_elem d m this i v = Inr (m', this')
            \<and> deref m' (header this') = Some b'
            \<and> refCount b' = 1 \<and> size_f b' = size_f b \<and> elements b' = (elements b)[i := v]
            \<and> (refCount b \<noteq> 1 \<longrightarrow>
                  header this' \<noteq> header this
                  \<and> deref m' (header this) = Some (b\<lparr>refCount := refCount b - 1\<rparr>)))
     \<and> set_elem d m this i v =
         (case modify d m this of
            Inl e \<Rightarrow> Inl e
          | Inr (m1, this1) \<Rightarrow>
              (case store m1 (header this1, i) v of
                 Inl e \<Rightarrow> Inl e
               | Inr m2 \<Rightarrow> Inr (m2, this1)))
     \<and> getArray m this = Inr (m, this, (header this, 0))
     \<and> index_op m this i = Inr (m, this, (header this, i))"
proof -
  let ?p = "header this" and ?q = "nextAddr m"
  from live have p: "?p \<noteq> 0" "blocks m ?p = Some b" by (auto simp: deref_def split: if_splits)
  from wf have q: "?q \<noteq> 0" "blocks m ?q = None" by (simp_all add: wf_memory_def)
  with p have qp: "?q \<noteq> ?p" by auto
  have acc: "getArray m this = Inr (m, this, (header this, 0))
     \<and> index_op m this i = Inr (m, this, (header this, i))"
    using live i by (simp add: getArray_def index_op_def)
  have "\<exists>m' this' b'. set_elem d m this i v = Inr (m', this')
            \<and> deref m' (header this') = Some b'
            \<and> refCount b' = 1 \<and> size_f b' = size_f b \<and> elements b' = (elements b)[i := v]
            \<and> (refCount b \<noteq> 1 \<longrightarrow>
                  header this' \<noteq> header this
                  \<and> deref m' (header this) = Some (b\<lparr>refCount := refCount b - 1\<rparr>))"
  proof (cases "refCount b = 1")
    case True
    with p i have "set_elem d m this i v
        = Inr (m\<lparr>blocks := (blocks m)(?p \<mapsto> b\<lparr>elements := (elements b)[i := v]\<rparr>)\<rparr>, this)"
      by (simp add: set_elem_def modify_sole_owner store_def deref_def)
    with True p show ?thesis by (simp add: deref_def)
  next
    case False
    with room have cap: "Suc (size_f b) \<le> capacity m" by simp
    let ?nb = "\<lparr>refCount = 1, size_f = size_f b, elements = elements b\<rparr>"
    let ?m1 = "m\<lparr>blocks := (blocks m)(?q \<mapsto> ?nb, ?p \<mapsto> b\<lparr>refCount := refCount b - 1\<rparr>),
                 nextAddr := Suc ?q,
                 capacity := capacity m - Suc (size_f b),
                 events := events m @ [Create ?q, Unref ?p (refCount b - 1)]\<rparr>"
    have mo: "modify d m this = Inr (?m1, \<lparr>header = ?q\<rparr>)"
      by (rule modify_shared_eq [OF p False wf cap])
    let ?m2 = "?m1\<lparr>blocks := (blocks ?m1)(?q \<mapsto> ?nb\<lparr>elements := (elements b)[i := v]\<rparr>)\<rparr>"
    have "store ?m1 (?q, i) v = Inr ?m2" using q qp i by (simp add: store_def deref_def)
    with mo have "set_elem d m this i v = Inr (?m2, \<lparr>header = ?q\<rparr>)"
      by (simp add: set_elem_def)
    then show ?thesis using p q qp by (simp add: deref_def)
  qed
  with acc show ?thesis by (simp add: set_elem_def)
qed

theorem set_unshares_accessors_do_not_witness:
  "wf_memory (mem (shared_by 1 (0::int) 3 10))
   \<and> deref (mem (shared_by 1 (0::int) 3 10)) (header \<lparr>header = 1\<rparr>)
       = Some \<lparr>refCount = 2, size_f = 3, elements = [0, 0, 0]\<rparr>
   \<and> (\<exists>m' b'. set_elem 0 (mem (shared_by 1 (0::int) 3 10)) \<lparr>header = 1\<rparr> 0 99 = Inr (m', \<lparr>header = 2\<rparr>)
          \<and> deref m' 2 = Some b' \<and> refCount b' = 1 \<and> elements b' = [99, 0, 0]
          \<and> deref m' 1 = Some \<lparr>refCount = 1, size_f = 3, elements = [0, 0, 0]\<rparr>)
   \<and> getArray (mem (shared_by 1 (0::int) 3 10)) \<lparr>header = 1\<rparr>
       = Inr (mem (shared_by 1 0 3 10), \<lparr>header = 1\<rparr>, (1, 0))
   \<and> index_op (mem (shared_by 1 (0::int) 3 10)) \<lparr>header = 1\<rparr> 0
       = Inr (mem (shared_by 1 0 3 10), \<lparr>header = 1\<rparr>, (1, 0))"
proof -
  let ?m = "mem (shared_by 1 (0::int) 3 10)"
  let ?b = "\<lparr>refCount = 2, size_f = 3, elements = [0, 0, 0 :: int]\<rparr>"
  have two: "(of_nat (Suc 1) :: uint) = 2" by simp
  have wf: "wf_memory ?m" by (simp add: shared_by_def wf_memory_def)
  have live: "deref ?m (header \<lparr>header = 1\<rparr>) = Some ?b"
    by (simp add: shared_by_def deref_def two numeral_3_eq_3)
  have room: "refCount ?b = 1 \<or> Suc (size_f ?b) \<le> capacity ?m" by (simp add: shared_by_def)
  have i: "0 < length (elements ?b)" by simp
  have nx: "nextAddr ?m = 2" by (simp add: shared_by_def)
  have sh: "refCount ?b \<noteq> 1" by simp
  note t = set_unshares_accessors_do_not [OF wf live room i, of 0 99]
  from t [THEN conjunct1] obtain m' this' b'
    where s: "set_elem 0 ?m \<lparr>header = 1\<rparr> 0 99 = Inr (m', this')"
      and b': "deref m' (header this') = Some b'" "refCount b' = 1"
        "elements b' = (elements ?b)[0 := 99]"
      and old: "refCount ?b \<noteq> 1 \<longrightarrow> header this' \<noteq> header \<lparr>header = 1\<rparr>
          \<and> deref m' (header \<lparr>header = 1\<rparr>) = Some (?b\<lparr>refCount := refCount ?b - 1\<rparr>)"
    by blast
  have "modify 0 ?m \<lparr>header = 1\<rparr> = Inr (m', this') \<or> header this' = 2"
    using s nx live sh modify_shared_eq [of "\<lparr>header = 1\<rparr>" ?m ?b 0, OF _ _ sh wf]
    by (auto simp: set_elem_def deref_def shared_by_def split: sum.splits if_splits)
  then have "header this' = 2"
    using nx live sh modify_shared_eq [of "\<lparr>header = 1\<rparr>" ?m ?b 0, OF _ _ sh wf]
    by (auto simp: deref_def shared_by_def split: if_splits)
  then have h2: "this' = \<lparr>header = 2\<rparr>" by (cases this') simp
  have "\<exists>m' b'. set_elem 0 ?m \<lparr>header = 1\<rparr> 0 99 = Inr (m', \<lparr>header = 2\<rparr>)
          \<and> deref m' 2 = Some b' \<and> refCount b' = 1 \<and> elements b' = [99, 0, 0]
          \<and> deref m' 1 = Some \<lparr>refCount = 1, size_f = 3, elements = [0, 0, 0]\<rparr>"
  proof (intro exI [of _ m'] exI [of _ b'] conjI)
    show "set_elem 0 ?m \<lparr>header = 1\<rparr> 0 99 = Inr (m', \<lparr>header = 2\<rparr>)" using s h2 by simp
    show "deref m' 2 = Some b'" using b'(1) h2 by simp
    show "refCount b' = 1" by (rule b'(2))
    show "elements b' = [99, 0, 0]" using b'(3) by simp
    show "deref m' 1 = Some \<lparr>refCount = 1, size_f = 3, elements = [0, 0, 0]\<rparr>"
      using old sh by simp
  qed
  moreover have "getArray ?m \<lparr>header = 1\<rparr> = Inr (?m, \<lparr>header = 1\<rparr>, (1, 0))"
    using t [THEN conjunct2, THEN conjunct2, THEN conjunct1] by simp
  moreover have "index_op ?m \<lparr>header = 1\<rparr> 0 = Inr (?m, \<lparr>header = 1\<rparr>, (1, 0))"
    using t [THEN conjunct2, THEN conjunct2, THEN conjunct2] by simp
  ultimately show ?thesis using wf live by (intro conjI)
qed

text \<open>
  C3. On a valid handle whose block has reference count exactly 1, \<open>modify\<close> changes
  nothing: it returns the same store (no block allocated; the block's size, elements
  and count as before) and the same handle (the same storage address). Accordingly
  \<open>set\<close> on such a handle writes the element in place, at the same address.
\<close>

theorem modify_exclusive:
  assumes "deref m (header this) = Some b" and "refCount b = 1"
  shows "modify d m this = Inr (m, this)
     \<and> (i < length (elements b) \<longrightarrow>
          set_elem d m this i v =
            Inr (m\<lparr>blocks := (blocks m)(header this \<mapsto> b\<lparr>elements := (elements b)[i := v]\<rparr>)\<rparr>, this))"
  using assms
  by (simp add: modify_def set_elem_def store_def)

theorem modify_exclusive_witness:
  "deref mem_123 (header \<lparr>header = 1\<rparr>) = Some \<lparr>refCount = 1, size_f = 3, elements = [1, 2, 3]\<rparr>
   \<and> modify 0 mem_123 \<lparr>header = 1\<rparr> = Inr (mem_123, \<lparr>header = 1\<rparr>)
   \<and> set_elem 0 mem_123 \<lparr>header = 1\<rparr> 0 99
       = Inr (mem_123\<lparr>blocks := (blocks mem_123)
                (1 \<mapsto> \<lparr>refCount = 1, size_f = 3, elements = [99, 2, 3]\<rparr>)\<rparr>, \<lparr>header = 1\<rparr>)"
proof -
  let ?b = "\<lparr>refCount = 1, size_f = 3, elements = [1, 2, 3 :: int]\<rparr>"
  have A: "deref mem_123 (header \<lparr>header = 1\<rparr>) = Some ?b" by (simp add: deref_def mem_123_def)
  have one: "refCount ?b = 1" by simp
  from modify_exclusive [OF A one, of 0 0 99] A show ?thesis by simp
qed

subsection \<open>Assignment\<close>

text \<open>
  C4. Self-assignment is the identity: for every handle, valid or not, \<open>h = h\<close>
  returns the store and the handle as they were. The store holds the blocks with their
  contents and counts and the log of \<open>ref\<close>, \<open>unref\<close> and \<open>destroy\<close> calls, so no
  such call is made.
\<close>

theorem self_assignment: "operator_assign m this this = Inr (m, this)"
  by (simp add: operator_assign_def)

text \<open>
  C5. Assigning to a handle that references block \<open>X\<close> a handle that references a
  different block \<open>Y\<close>: the count of \<open>X\<close> goes down by one and \<open>X\<close> is destroyed if
  that made it zero, the count of \<open>Y\<close> goes up by one (both in the counter's 32-bit
  arithmetic), the handle references \<open>Y\<close>, no other block changes, and the log shows
  the \<open>unref\<close> of \<open>X\<close> (and its destruction) before the \<open>ref\<close> of \<open>Y\<close>.
\<close>

theorem assign_different_block:
  assumes "deref m (header this) = Some x"
    and "deref m (header source) = Some y"
    and "header this \<noteq> header source"
  shows "\<exists>m'. operator_assign m this source = Inr (m', source)
     \<and> blocks m' (header this) =
         (if refCount x = 1 then None else Some (x\<lparr>refCount := refCount x - 1\<rparr>))
     \<and> blocks m' (header source) = Some (y\<lparr>refCount := refCount y + 1\<rparr>)
     \<and> (\<forall>p. p \<noteq> header this \<and> p \<noteq> header source \<longrightarrow> blocks m' p = blocks m p)
     \<and> events m' = events m @ [Unref (header this) (refCount x - 1)]
         @ (if refCount x = 1 then [Destroy (header this)] else [])
         @ [Ref (header source) (refCount y + 1)]"
  using assms
  by (auto simp: operator_assign_def header_unref_def header_ref_def destroy_def deref_def
      unref_def ref_def preSub_def preAdd_def split: if_splits)

theorem assign_different_block_witness:
  "deref two_blocks (header \<lparr>header = 1\<rparr>) = Some \<lparr>refCount = 1, size_f = 3, elements = [0, 0, 0]\<rparr>
   \<and> deref two_blocks (header \<lparr>header = 2\<rparr>) = Some \<lparr>refCount = 1, size_f = 2, elements = [0, 0]\<rparr>
   \<and> header \<lparr>header = 1\<rparr> \<noteq> header \<lparr>header = 2\<rparr>
   \<and> (\<exists>m'. operator_assign two_blocks \<lparr>header = 1\<rparr> \<lparr>header = 2\<rparr> = Inr (m', \<lparr>header = 2\<rparr>)
         \<and> blocks m' 1 = None
         \<and> blocks m' 2 = Some \<lparr>refCount = 2, size_f = 2, elements = [0, 0]\<rparr>
         \<and> events m' = [Create 1, Create 2, Unref 1 0, Destroy 1, Ref 2 2])"
proof -
  let ?x = "\<lparr>refCount = 1, size_f = 3, elements = [0, 0, 0 :: int]\<rparr>"
  let ?y = "\<lparr>refCount = 1, size_f = 2, elements = [0, 0 :: int]\<rparr>"
  have X: "deref two_blocks (header \<lparr>header = 1\<rparr>) = Some ?x" by (simp add: deref_def two_blocks_def)
  have Y: "deref two_blocks (header \<lparr>header = 2\<rparr>) = Some ?y" by (simp add: deref_def two_blocks_def)
  have ne: "header \<lparr>header = 1\<rparr> \<noteq> header \<lparr>header = 2\<rparr>" by simp
  from assign_different_block [OF X Y ne]
  obtain m' where a: "operator_assign two_blocks \<lparr>header = 1\<rparr> \<lparr>header = 2\<rparr> = Inr (m', \<lparr>header = 2\<rparr>)"
    and x: "blocks m' (header \<lparr>header = 1\<rparr>)
        = (if refCount ?x = 1 then None else Some (?x\<lparr>refCount := refCount ?x - 1\<rparr>))"
    and y: "blocks m' (header \<lparr>header = 2\<rparr>) = Some (?y\<lparr>refCount := refCount ?y + 1\<rparr>)"
    and e: "events m' = events two_blocks @ [Unref (header \<lparr>header = 1\<rparr>) (refCount ?x - 1)]
         @ (if refCount ?x = 1 then [Destroy (header \<lparr>header = 1\<rparr>)] else [])
         @ [Ref (header \<lparr>header = 2\<rparr>) (refCount ?y + 1)]"
    by blast
  have "\<exists>m'. operator_assign two_blocks \<lparr>header = 1\<rparr> \<lparr>header = 2\<rparr> = Inr (m', \<lparr>header = 2\<rparr>)
         \<and> blocks m' 1 = None
         \<and> blocks m' 2 = Some \<lparr>refCount = 2, size_f = 2, elements = [0, 0]\<rparr>
         \<and> events m' = [Create 1, Create 2, Unref 1 0, Destroy 1, Ref 2 2]"
  proof (intro exI [of _ m'] conjI)
    show "operator_assign two_blocks \<lparr>header = 1\<rparr> \<lparr>header = 2\<rparr> = Inr (m', \<lparr>header = 2\<rparr>)"
      by (rule a)
    show "blocks m' 1 = None" using x by simp
    show "blocks m' 2 = Some \<lparr>refCount = 2, size_f = 2, elements = [0, 0]\<rparr>" using y by simp
    show "events m' = [Create 1, Create 2, Unref 1 0, Destroy 1, Ref 2 2]"
      using e by (simp add: two_blocks_def)
  qed
  with X Y ne show ?thesis by (intro conjI)
qed

subsection \<open>The reference counter\<close>

text \<open>
  C6. For every block and every value of its reference count, \<open>unref\<close> leaves the
  count one lower (in the 32-bit unsigned arithmetic of the counter, so that 0 becomes
  \<open>2^32 - 1\<close>), leaves size and elements alone, and returns true exactly when the
  count after the decrement is zero, that is, when it was 1 before. It does so in one
  indivisible access to the counter: run alone, that access and the comparison of its
  returned value are \<open>unref\<close>; and in every execution that interleaves the \<open>unref\<close>
  calls of fewer than \<open>2^32\<close> threads on a counter that starts at \<open>c\<close>, the counter
  ends at \<open>c\<close> less the number of threads, the call that reaches the counter as the
  \<open>j\<close>-th is told true exactly when \<open>c = j\<close>, and so exactly one thread is told true
  if the count reaches zero among these calls and none otherwise. (The sequence of
  load, decrement and compare does not have this property: \<open>separate_accesses_race\<close>.)
\<close>

theorem unref_decrements_and_tests:
  "refCount (fst (unref h)) = refCount h - 1
   \<and> size_f (fst (unref h)) = size_f h
   \<and> elements (fst (unref h)) = elements h
   \<and> snd (unref h) = (refCount (fst (unref h)) = 0)
   \<and> snd (unref h) = (refCount h = 1)
   \<and> unat (refCount (fst (unref h))) = (unat (refCount h) + 2 ^ 32 - 1) mod 2 ^ 32
   \<and> unref h = (h\<lparr>refCount := fst (preSub (refCount h) 1)\<rparr>, snd (preSub (refCount h) 1) = 0)
   \<and> unref h = (h\<lparr>refCount := fst (exec (map (Pair t) unref_accesses) (refCount h) R)\<rparr>,
                 unref_answer (snd (exec (map (Pair t) unref_accesses) (refCount h) R) t))
   \<and> (distinct ts \<and> length ts < 2 ^ 32 \<and> interleaves unref_accesses ts tr \<longrightarrow>
        fst (exec tr c R) = c - of_nat (length ts)
        \<and> (\<forall>j < length tr. unref_answer (snd (exec tr c R) (fst (tr ! j))) = (unat c = Suc j))
        \<and> length (filter (\<lambda>t. unref_answer (snd (exec tr c R) t)) ts)
            = (if 1 \<le> unat c \<and> unat c \<le> length ts then 1 else 0))"
proof -
  have seq: "refCount (fst (unref h)) = refCount h - 1
   \<and> size_f (fst (unref h)) = size_f h
   \<and> elements (fst (unref h)) = elements h
   \<and> snd (unref h) = (refCount (fst (unref h)) = 0)
   \<and> snd (unref h) = (refCount h = 1)
   \<and> unat (refCount (fst (unref h))) = (unat (refCount h) + 2 ^ 32 - 1) mod 2 ^ 32
   \<and> unref h = (h\<lparr>refCount := fst (preSub (refCount h) 1)\<rparr>, snd (preSub (refCount h) 1) = 0)"
    using unat_pred_uint [of "refCount h"] by (simp add: unref_def preSub_def)
  note alone = unref_alone [of h t R]
  have conc: "distinct ts \<and> length ts < 2 ^ 32 \<and> interleaves unref_accesses ts tr \<longrightarrow>
        fst (exec tr c R) = c - of_nat (length ts)
        \<and> (\<forall>j < length tr. unref_answer (snd (exec tr c R) (fst (tr ! j))) = (unat c = Suc j))
        \<and> length (filter (\<lambda>t. unref_answer (snd (exec tr c R) t)) ts)
            = (if 1 \<le> unat c \<and> unat c \<le> length ts then 1 else 0)"
    using concurrent_unrefs [of ts tr c R] by blast
  show ?thesis using seq alone conc by (elim conjE, intro conjI) assumption+
qed

theorem unref_decrements_and_tests_witness:
  "distinct [0, 1 :: tid] \<and> length [0, 1 :: tid] < 2 ^ 32
   \<and> interleaves unref_accesses [0, 1] [(1, PreSub 1), (0, PreSub 1)]
   \<and> fst (exec [(1, PreSub 1), (0, PreSub 1)] 2 (\<lambda>t. 0)) = 0
   \<and> \<not> unref_answer (snd (exec [(1, PreSub 1), (0, PreSub 1)] 2 (\<lambda>t. 0)) 1)
   \<and> unref_answer (snd (exec [(1, PreSub 1), (0, PreSub 1)] 2 (\<lambda>t. 0)) 0)
   \<and> length (filter (\<lambda>t. unref_answer (snd (exec [(1, PreSub 1), (0, PreSub 1)] 2 (\<lambda>t. 0)) t)) [0, 1]) = 1"
proof -
  let ?tr = "[(1, PreSub 1), (0, PreSub 1)] :: (tid \<times> action) list"
  have h1: "distinct [0, 1 :: tid]" by simp
  have h2: "length [0, 1 :: tid] < 2 ^ 32" by simp
  have h3: "interleaves unref_accesses [0, 1] ?tr"
    by (simp add: interleaves_def calls_def unref_accesses_def)
  note t = unref_decrements_and_tests [of "Header_ctor 0 :: int Header" 0 "\<lambda>t. 0" "[0, 1]" ?tr 2,
      THEN conjunct2, THEN conjunct2, THEN conjunct2, THEN conjunct2, THEN conjunct2,
      THEN conjunct2, THEN conjunct2, THEN conjunct2, rule_format, OF conjI [OF h1 conjI [OF h2 h3]]]
  note t2 = t [THEN conjunct2, THEN conjunct1, rule_format]
  have c1: "fst (exec ?tr 2 (\<lambda>t. 0)) = 0" using t [THEN conjunct1] by simp
  have a0: "unref_answer (snd (exec ?tr 2 (\<lambda>t. 0)) 1) = (unat (2 :: uint) = Suc 0)"
    using t2 [of 0] by simp
  have a1: "unref_answer (snd (exec ?tr 2 (\<lambda>t. 0)) 0) = (unat (2 :: uint) = Suc 1)"
    using t2 [of 1] by simp
  have cn: "length (filter (\<lambda>t. unref_answer (snd (exec ?tr 2 (\<lambda>t. 0)) t)) [0, 1]) = 1"
    using t [THEN conjunct2, THEN conjunct2] by simp
  from a0 have "\<not> unref_answer (snd (exec ?tr 2 (\<lambda>t. 0)) 1)" by simp
  moreover from a1 have "unref_answer (snd (exec ?tr 2 (\<lambda>t. 0)) 0)" by simp
  ultimately show ?thesis using h1 h2 h3 c1 cn by (intro conjI)
qed

text \<open>
  C7, as stated, fails: the counter is a 32-bit \<^verbatim>\<open>unsigned int\<close> and wraps. After
  \<^verbatim>\<open>RefCountedArray<int> h0(0);\<close> and \<open>2^32 - 1\<close> copies of \<open>h0\<close>, the block is
  referenced by \<open>2^32\<close> handles and its reference count is 0.
\<close>

theorem refcount_wraps_counterexample:
  "run (0::int) (init_system 1) (Sized 0 0 # copy_ops 4294967295) = Inr (shared_by 4294967295 0 0 1)
   \<and> map_option refCount (blocks (mem (shared_by 4294967295 (0::int) 0 1)) 1) = Some 0
   \<and> refs_to 1 (handles (shared_by 4294967295 (0::int) 0 1)) = 4294967296
   \<and> \<not> counts_ok (shared_by 4294967295 (0::int) 0 1)"
proof -
  let ?S = "shared_by 4294967295 (0::int) 0 1"
  have r: "run (0::int) (init_system 1) (Sized 0 0 # copy_ops 4294967295) = Inr ?S"
    by (rule run_copy_ops) simp
  have "(of_nat (Suc 4294967295) :: uint) = 0" by simp
  then have c: "map_option refCount (blocks (mem ?S) 1) = Some 0"
    by (simp add: shared_by_def)
  have n: "refs_to 1 (handles ?S) = 4294967296"
    unfolding shared_by_def using refs_to_shared_handles [of 1 "Suc 4294967295"] by simp
  have "\<not> counts_ok ?S"
  proof
    assume "counts_ok ?S"
    moreover obtain b where b: "blocks (mem ?S) 1 = Some b" "refCount b = 0"
      using c by auto
    ultimately have "unat (refCount b) = refs_to 1 (handles ?S)" by (simp add: counts_ok_def)
    with b n show False by simp
  qed
  with r c n show ?thesis by simp
qed

text \<open>
  C7, amended. From a state that satisfies the invariant (the empty program does), over
  every sequence of operations (construct, copy, assign, modify, set, destroy) that
  stays within the contract and during which fewer than \<open>2^32\<close> handles are in
  scope at any moment: each live block's reference count equals the number of handles that
  reference it and is not zero; a block that is live before and after has the same
  size; every destruction in the log directly follows the \<open>unref\<close> of that block
  that left its count at zero (and so took it from 1 to 0), and every such \<open>unref\<close>
  is directly followed by the destruction; and each address handed out either still
  holds its block and was never destroyed, or was destroyed exactly once.
\<close>

theorem refcount_invariant:
  assumes "invariant s" and "handle_peak d s ops < 2 ^ 32" and "run d s ops = Inr s'"
  shows "(\<forall>p b. blocks (mem s') p = Some b \<longrightarrow>
            unat (refCount b) = refs_to p (handles s') \<and> refCount b \<noteq> 0)
     \<and> (\<forall>p b b'. blocks (mem s) p = Some b \<and> blocks (mem s') p = Some b' \<longrightarrow>
            size_f b' = size_f b)
     \<and> orderly (events (mem s'))
     \<and> (\<forall>p. count_list (events (mem s')) (Destroy p) = (if destroyed (mem s') p then 1 else 0))
     \<and> invariant s'"
proof -
  from invariant_run [OF assms] have inv: "invariant s'" and sk: "sizes_kept s s'" by simp_all
  have "size_f b' = size_f b"
    if "blocks (mem s) p = Some b" and "blocks (mem s') p = Some b'" for p b b'
  proof -
    from invariant_below [OF assms(1) that(1)] have "p < nextAddr (mem s)" by simp
    with sk that show ?thesis unfolding sizes_kept_def by fastforce
  qed
  with inv show ?thesis unfolding invariant_def counts_ok_def log_ok_def by blast
qed

theorem refcount_invariant_witness:
  "invariant (init_system 10 :: int system)
   \<and> handle_peak (0::int) (init_system 10) [Sized 0 3, CopyCon 1 0, SetElem 1 0 99, Destruct 0] < 2 ^ 32
   \<and> (\<exists>S. run (0::int) (init_system 10) [Sized 0 3, CopyCon 1 0, SetElem 1 0 99, Destruct 0] = Inr S
          \<and> handles S = [(1, \<lparr>header = 2\<rparr>)]
          \<and> events (mem S) = [Create 1, Ref 1 2, Create 2, Unref 1 1, Unref 1 0, Destroy 1]
          \<and> map_option elements (blocks (mem S) 2) = Some [99, 0, 0]
          \<and> (\<forall>p b. blocks (mem S) p = Some b \<longrightarrow>
                unat (refCount b) = refs_to p (handles S) \<and> refCount b \<noteq> 0)
          \<and> orderly (events (mem S))
          \<and> (\<forall>p. count_list (events (mem S)) (Destroy p) = (if destroyed (mem S) p then 1 else 0))
          \<and> invariant S)"
proof -
  let ?ops = "[Sized 0 3, CopyCon 1 0, SetElem 1 0 99, Destruct 0 :: int op]"
  have i0: "invariant (init_system 10 :: int system)" by (rule invariant_init)
  have "handle_peak 0 (init_system 10) ?ops = 2"
    by (simp add: init_system_def init_memory_def RefCountedArray_sized_def create_def
        Header_ctor_def RefCountedArray_copy_def header_ref_def ref_def preAdd_def
        set_elem_def modify_def store_def deref_def header_unref_def unref_def preSub_def
        destructor_def destroy_def numeral_3_eq_3 numeral_2_eq_2)
  then have l0: "handle_peak 0 (init_system 10) ?ops < 2 ^ 32" by simp
  have "\<exists>S. run 0 (init_system 10) ?ops = Inr S
          \<and> handles S = [(1, \<lparr>header = 2\<rparr>)]
          \<and> events (mem S) = [Create 1, Ref 1 2, Create 2, Unref 1 1, Unref 1 0, Destroy 1]
          \<and> map_option elements (blocks (mem S) 2) = Some [99, 0, 0]"
    by (simp add: init_system_def init_memory_def RefCountedArray_sized_def create_def
        Header_ctor_def RefCountedArray_copy_def header_ref_def ref_def preAdd_def
        set_elem_def modify_def store_def deref_def header_unref_def unref_def preSub_def
        destructor_def destroy_def numeral_3_eq_3 numeral_2_eq_2)
  then obtain S where r: "run 0 (init_system 10) ?ops = Inr S"
    and f: "handles S = [(1, \<lparr>header = 2\<rparr>)]"
      "events (mem S) = [Create 1, Ref 1 2, Create 2, Unref 1 1, Unref 1 0, Destroy 1]"
      "map_option elements (blocks (mem S) 2) = Some [99, 0, 0]"
    by blast
  note c = refcount_invariant [OF i0 l0 r]
  have "\<exists>S. run 0 (init_system 10) ?ops = Inr S
          \<and> handles S = [(1, \<lparr>header = 2\<rparr>)]
          \<and> events (mem S) = [Create 1, Ref 1 2, Create 2, Unref 1 1, Unref 1 0, Destroy 1]
          \<and> map_option elements (blocks (mem S) 2) = Some [99, 0, 0]
          \<and> (\<forall>p b. blocks (mem S) p = Some b \<longrightarrow>
                unat (refCount b) = refs_to p (handles S) \<and> refCount b \<noteq> 0)
          \<and> orderly (events (mem S))
          \<and> (\<forall>p. count_list (events (mem S)) (Destroy p) = (if destroyed (mem S) p then 1 else 0))
          \<and> invariant S"
  proof (intro exI [of _ S] conjI)
    show "run 0 (init_system 10) ?ops = Inr S" by (rule r)
    show "handles S = [(1, \<lparr>header = 2\<rparr>)]" by (rule f(1))
    show "events (mem S) = [Create 1, Ref 1 2, Create 2, Unref 1 1, Unref 1 0, Destroy 1]"
      by (rule f(2))
    show "map_option elements (blocks (mem S) 2) = Some [99, 0, 0]" by (rule f(3))
    show "\<forall>p b. blocks (mem S) p = Some b \<longrightarrow>
                unat (refCount b) = refs_to p (handles S) \<and> refCount b \<noteq> 0"
      by (rule c [THEN conjunct1])
    show "orderly (events (mem S))"
      by (rule c [THEN conjunct2, THEN conjunct2, THEN conjunct1])
    show "\<forall>p. count_list (events (mem S)) (Destroy p) = (if destroyed (mem S) p then 1 else 0)"
      by (rule c [THEN conjunct2, THEN conjunct2, THEN conjunct2, THEN conjunct1])
    show "invariant S"
      by (rule c [THEN conjunct2, THEN conjunct2, THEN conjunct2, THEN conjunct2])
  qed
  with i0 l0 show ?thesis by (intro conjI)
qed

subsection \<open>Sized construction\<close>

text \<open>
  C8. For every size \<open>n\<close>, constructing a handle of size \<open>n\<close> in a well-formed store
  with room for the block yields a handle for which \<open>isValid\<close> is true and \<open>getSize\<close>
  returns \<open>n\<close>.
\<close>

theorem sized_construction:
  assumes "wf_memory m" and "Suc n \<le> capacity m"
  shows "\<exists>m' this. RefCountedArray_sized d m n = Inr (m', this)
           \<and> isValid this \<and> getSize m' this = Inr n"
  using assms
  by (simp add: RefCountedArray_sized_def create_def isValid_def getSize_def deref_def
      Header_ctor_def wf_memory_def)

theorem sized_construction_witness:
  "wf_memory (init_memory 10 :: int memory) \<and> Suc 3 \<le> capacity (init_memory 10 :: int memory)
   \<and> (\<exists>m' this. RefCountedArray_sized (0::int) (init_memory 10) 3 = Inr (m', this)
          \<and> isValid this \<and> getSize m' this = Inr 3)"
  using sized_construction [of "init_memory 10 :: int memory" 3 0]
  by (simp add: wf_memory_def init_memory_def)

subsection \<open>Failed allocation\<close>

text \<open>
  C9. If the allocation of a new block fails, in sized construction or in the
  unsharing copy of \<open>modify\<close> (also when \<open>set\<close> calls it), the exception leaves the
  store exactly as it was before the call: no block has been released or written. At
  the level of programs, an operation that ends in a failed allocation leaves the
  whole state, the store and every handle, as it was. Sized construction fails in no
  other way, and only for want of room.
\<close>

theorem allocation_failure_atomic:
  "(\<forall>e. RefCountedArray_sized d m n = Inl e \<longrightarrow> e = BadAlloc m \<and> capacity m < Suc n)
   \<and> (\<forall>m'. modify d m this = Inl (BadAlloc m') \<longrightarrow> m' = m)
   \<and> (\<forall>m'. set_elem d m this i v = Inl (BadAlloc m') \<longrightarrow> m' = m)
   \<and> (\<forall>s'. step d s x = Inl (BadAlloc s') \<longrightarrow> s' = s)"
  using sized_fails [of d m n] modify_fails [of d m this] set_elem_fails [of d m this i v]
    step_fails [of d s x]
  by blast

theorem allocation_failure_atomic_witness:
  "RefCountedArray_sized (0::int) (init_memory 2) 3 = Inl (BadAlloc (init_memory 2))
   \<and> run 0 (init_system 4) (Sized 0 3 # copy_ops 1) = Inr (shared_by 1 (0::int) 3 4)
   \<and> modify 0 (mem (shared_by 1 (0::int) 3 4)) \<lparr>header = 1\<rparr>
       = Inl (BadAlloc (mem (shared_by 1 0 3 4)))
   \<and> set_elem 0 (mem (shared_by 1 (0::int) 3 4)) \<lparr>header = 1\<rparr> 0 99
       = Inl (BadAlloc (mem (shared_by 1 0 3 4)))
   \<and> step 0 (shared_by 1 (0::int) 3 4) (SetElem 1 0 99) = Inl (BadAlloc (shared_by 1 0 3 4))"
proof -
  let ?S = "shared_by 1 (0::int) 3 4"
  have two: "(of_nat (Suc 1) :: uint) = 2" by simp
  have r: "run 0 (init_system 4) (Sized 0 3 # copy_ops 1) = Inr ?S" by (rule run_copy_ops) simp
  have f1: "\<exists>e. RefCountedArray_sized (0::int) (init_memory 2) 3 = Inl e"
    by (simp add: RefCountedArray_sized_def create_def init_memory_def)
  have f2: "\<exists>m'. modify 0 (mem ?S) \<lparr>header = 1\<rparr> = Inl (BadAlloc m')"
    by (simp add: modify_def create_def shared_by_def deref_def two)
  have f3: "\<exists>m'. set_elem 0 (mem ?S) \<lparr>header = 1\<rparr> 0 99 = Inl (BadAlloc m')"
    by (simp add: set_elem_def modify_def create_def shared_by_def deref_def two)
  have f4: "\<exists>s'. step 0 ?S (SetElem 1 0 99) = Inl (BadAlloc s')"
    by (simp add: set_elem_def modify_def create_def shared_by_def deref_def two)
  from allocation_failure_atomic [of 0 "init_memory 2" 3 "\<lparr>header = 0\<rparr>" 0 0 ?S "Default 0"] f1
  have "RefCountedArray_sized (0::int) (init_memory 2) 3 = Inl (BadAlloc (init_memory 2))"
    by blast
  moreover from allocation_failure_atomic [of 0 "mem ?S" 0 "\<lparr>header = 1\<rparr>" 0 99 ?S "SetElem 1 0 99"] f2 f3 f4
  have "modify 0 (mem ?S) \<lparr>header = 1\<rparr> = Inl (BadAlloc (mem ?S))"
    "set_elem 0 (mem ?S) \<lparr>header = 1\<rparr> 0 99 = Inl (BadAlloc (mem ?S))"
    "step 0 ?S (SetElem 1 0 99) = Inl (BadAlloc ?S)"
    by blast+
  ultimately show ?thesis using r by simp
qed

subsection \<open>Invalid handles\<close>

text \<open>
  C10. Copying, destroying and assigning from an invalid handle are total. The copy
  of an invalid handle is invalid and the store is untouched; destroying an invalid
  handle leaves the store untouched; assigning an invalid handle does to the store
  what destroying the target does and leaves the target invalid, and on a target that
  references a live block this release succeeds and logs the \<open>unref\<close> (and the
  destruction, if the count was 1) and nothing else.
\<close>

theorem invalid_handle_total:
  "\<not> isValid RefCountedArray_void
   \<and> RefCountedArray_copy m RefCountedArray_void = Inr (m, RefCountedArray_void)
   \<and> destructor m RefCountedArray_void = Inr m
   \<and> operator_assign m this RefCountedArray_void =
       (case destructor m this of Inl e \<Rightarrow> Inl e | Inr m' \<Rightarrow> Inr (m', RefCountedArray_void))
   \<and> (\<forall>x. deref m (header this) = Some x \<longrightarrow>
        (\<exists>m'. destructor m this = Inr m'
           \<and> events m' = events m @ [Unref (header this) (refCount x - 1)]
               @ (if refCount x = 1 then [Destroy (header this)] else [])))"
  by (auto simp: isValid_def RefCountedArray_void_def RefCountedArray_copy_def destructor_def
      operator_assign_def header_unref_def destroy_def deref_def unref_def preSub_def
      split: sum.splits if_splits)

theorem invalid_handle_total_witness:
  "deref two_blocks (header \<lparr>header = 1\<rparr>) = Some \<lparr>refCount = 1, size_f = 3, elements = [0, 0, 0]\<rparr>
   \<and> RefCountedArray_copy two_blocks RefCountedArray_void = Inr (two_blocks, RefCountedArray_void)
   \<and> destructor two_blocks RefCountedArray_void = Inr two_blocks
   \<and> (\<exists>m'. destructor two_blocks \<lparr>header = 1\<rparr> = Inr m'
         \<and> operator_assign two_blocks \<lparr>header = 1\<rparr> RefCountedArray_void = Inr (m', RefCountedArray_void)
         \<and> events m' = [Create 1, Create 2, Unref 1 0, Destroy 1])"
proof -
  let ?x = "\<lparr>refCount = 1, size_f = 3, elements = [0, 0, 0 :: int]\<rparr>"
  have X: "deref two_blocks (header \<lparr>header = 1\<rparr>) = Some ?x" by (simp add: deref_def two_blocks_def)
  note t = invalid_handle_total [of two_blocks "\<lparr>header = 1\<rparr>"]
  note t4 = t [THEN conjunct2, THEN conjunct2, THEN conjunct2, THEN conjunct1]
  note t5 = t [THEN conjunct2, THEN conjunct2, THEN conjunct2, THEN conjunct2, rule_format, OF X]
  from t5 obtain m' where d: "destructor two_blocks \<lparr>header = 1\<rparr> = Inr m'"
    and e: "events m' = events two_blocks @ [Unref (header \<lparr>header = 1\<rparr>) (refCount ?x - 1)]
               @ (if refCount ?x = 1 then [Destroy (header \<lparr>header = 1\<rparr>)] else [])"
    by blast
  have "\<exists>m'. destructor two_blocks \<lparr>header = 1\<rparr> = Inr m'
         \<and> operator_assign two_blocks \<lparr>header = 1\<rparr> RefCountedArray_void = Inr (m', RefCountedArray_void)
         \<and> events m' = [Create 1, Create 2, Unref 1 0, Destroy 1]"
  proof (intro exI [of _ m'] conjI)
    show "destructor two_blocks \<lparr>header = 1\<rparr> = Inr m'" by (rule d)
    show "operator_assign two_blocks \<lparr>header = 1\<rparr> RefCountedArray_void
        = Inr (m', RefCountedArray_void)" using t4 d by simp
    show "events m' = [Create 1, Create 2, Unref 1 0, Destroy 1]"
      using e by (simp add: two_blocks_def)
  qed
  moreover have "RefCountedArray_copy two_blocks RefCountedArray_void
      = Inr (two_blocks, RefCountedArray_void)"
    by (rule t [THEN conjunct2, THEN conjunct1])
  moreover have "destructor two_blocks RefCountedArray_void = Inr two_blocks"
    by (rule t [THEN conjunct2, THEN conjunct2, THEN conjunct1])
  ultimately show ?thesis using X by (intro conjI)
qed

end
